theory Spec2Isabelle
  imports Complex_Main
begin

section \<open>Python values and exceptions\<close>

text \<open>
  The engine is written in Python. An exception is a value of the type \<open>error\<close>; a
  function that can raise returns \<open>error + 'a\<close>, with \<open>Inl\<close> for the exception.
  Dimension sizes, strides and axes are natural numbers (the data model has
  non-negative dimension sizes), so a read position is never negative and Python's
  wrap-around of negative indices is only modelled where a caller supplies the index
  (\<open>getitem\<close>).

  A buffer is polymorphic in the type of its elements. Where the index arithmetic of
  shapes and strides and the bookkeeping of the differentiation pass are verified, the
  elements are reals: no rounding and no special values. Where the special values of
  Python's floats decide (the comparison of a permuted buffer with its input), the
  elements are the floats of the next section.
\<close>

datatype error = IndexError | TypeError | AssertionError | AttributeError | RecursionError
  | DanglingReference

definition ebind :: "error + 'a \<Rightarrow> ('a \<Rightarrow> error + 'b) \<Rightarrow> error + 'b" where
  "ebind m f = (case m of Inl e \<Rightarrow> Inl e | Inr v \<Rightarrow> f v)"

text \<open>\<open>xs[i]\<close> for an index that is known not to be negative.\<close>

definition list_get :: "'a list \<Rightarrow> nat \<Rightarrow> error + 'a" where
  "list_get xs i = (if i < length xs then Inr (xs ! i) else Inl IndexError)"

text \<open>\<open>xs[i]\<close> for any integer: a negative index counts from the end.\<close>

definition py_get :: "'a list \<Rightarrow> int \<Rightarrow> error + 'a" where
  "py_get xs i =
     (if 0 \<le> i \<and> i < int (length xs) then Inr (xs ! nat i)
      else if i < 0 \<and> - int (length xs) \<le> i then Inr (xs ! nat (int (length xs) + i))
      else Inl IndexError)"

text \<open>
  The loop \<open>for i in idxs: out_data += body(i)\<close>, started with \<open>out_data = []\<close>: the
  first iteration that raises ends the loop with its exception.
\<close>

fun for_extend :: "nat list \<Rightarrow> (nat \<Rightarrow> error + 'a list) \<Rightarrow> error + 'a list" where
  "for_extend [] body = Inr []"
| "for_extend (i # idxs) body =
     ebind (body i) (\<lambda>xs. ebind (for_extend idxs body) (\<lambda>ys. Inr (xs @ ys)))"

section \<open>Python floats\<close>

text \<open>
  A Python float is a finite number, one of the two infinities, or NaN; the finite
  numbers have two zeros. \<open>Finite r\<close> is the float of value \<open>r\<close> (\<open>Finite 0\<close> is \<open>0.0\<close>) and
  \<open>NegZero\<close> is \<open>-0.0\<close>. Rounding and overflow are not modelled: the result of an
  operation on finite floats is the exact one.
\<close>

datatype pyfloat = Finite real | NegZero | PosInf | NegInf | NaN

fun float_value :: "pyfloat \<Rightarrow> real" where
  "float_value (Finite r) = r"
| "float_value _ = 0"

definition float_is_zero :: "pyfloat \<Rightarrow> bool" where
  "float_is_zero a \<longleftrightarrow> a = Finite 0 \<or> a = NegZero"

definition float_is_inf :: "pyfloat \<Rightarrow> bool" where
  "float_is_inf a \<longleftrightarrow> a = PosInf \<or> a = NegInf"

text \<open>The sign bit, for a float that is not NaN.\<close>

fun float_negative :: "pyfloat \<Rightarrow> bool" where
  "float_negative (Finite r) = (r < 0)"
| "float_negative NegZero = True"
| "float_negative NegInf = True"
| "float_negative _ = False"

text \<open>
  \<open>x + y\<close>: NaN is passed on, the sum of the two infinities is NaN, an infinity absorbs a
  finite number, and a sum that is zero is \<open>-0.0\<close> only when both operands are.
\<close>

fun float_add :: "pyfloat \<Rightarrow> pyfloat \<Rightarrow> pyfloat" where
  "float_add NaN b = NaN"
| "float_add a NaN = NaN"
| "float_add PosInf NegInf = NaN"
| "float_add NegInf PosInf = NaN"
| "float_add PosInf b = PosInf"
| "float_add a PosInf = PosInf"
| "float_add NegInf b = NegInf"
| "float_add a NegInf = NegInf"
| "float_add NegZero NegZero = NegZero"
| "float_add NegZero (Finite r) = Finite r"
| "float_add (Finite r) NegZero = Finite r"
| "float_add (Finite r) (Finite q) = Finite (r + q)"

fun float_neg :: "pyfloat \<Rightarrow> pyfloat" where
  "float_neg (Finite r) = (if r = 0 then NegZero else Finite (- r))"
| "float_neg NegZero = Finite 0"
| "float_neg PosInf = NegInf"
| "float_neg NegInf = PosInf"
| "float_neg NaN = NaN"

definition float_sub :: "pyfloat \<Rightarrow> pyfloat \<Rightarrow> pyfloat" where
  "float_sub a b = float_add a (float_neg b)"

text \<open>
  \<open>x * y\<close>: NaN is passed on, an infinity times a zero is NaN, and the sign of every
  other product is the exclusive or of the signs.
\<close>

definition float_mul :: "pyfloat \<Rightarrow> pyfloat \<Rightarrow> pyfloat" where
  "float_mul a b =
     (if a = NaN \<or> b = NaN then NaN
      else if (float_is_inf a \<and> float_is_zero b) \<or> (float_is_zero a \<and> float_is_inf b) then NaN
      else if float_is_inf a \<or> float_is_inf b
        then (if float_negative a \<noteq> float_negative b then NegInf else PosInf)
      else if float_is_zero a \<or> float_is_zero b
        then (if float_negative a \<noteq> float_negative b then NegZero else Finite 0)
      else Finite (float_value a * float_value b))"

text \<open>
  The comparisons \<open>x < y\<close> and \<open>x == y\<close>: every comparison with NaN is false, also of NaN
  with itself, and the two zeros are equal. \<open>x != y\<close> is the negation of \<open>x == y\<close>.
\<close>

fun float_lt :: "pyfloat \<Rightarrow> pyfloat \<Rightarrow> bool" where
  "float_lt NaN b = False"
| "float_lt a NaN = False"
| "float_lt a NegInf = False"
| "float_lt NegInf b = True"
| "float_lt PosInf b = False"
| "float_lt a PosInf = True"
| "float_lt a b = (float_value a < float_value b)"

fun float_eq :: "pyfloat \<Rightarrow> pyfloat \<Rightarrow> bool" where
  "float_eq NaN b = False"
| "float_eq a NaN = False"
| "float_eq PosInf b = (b = PosInf)"
| "float_eq a PosInf = False"
| "float_eq NegInf b = (b = NegInf)"
| "float_eq a NegInf = False"
| "float_eq a b = (float_value a = float_value b)"

text \<open>The operators of Python on floats; \<open>0\<close> is \<open>0.0\<close>.\<close>

instantiation pyfloat :: "{zero, plus, minus, times, ord}"
begin

definition zero_pyfloat :: pyfloat where
  "zero_pyfloat = Finite 0"

definition plus_pyfloat :: "pyfloat \<Rightarrow> pyfloat \<Rightarrow> pyfloat" where
  "plus_pyfloat a b = float_add a b"

definition minus_pyfloat :: "pyfloat \<Rightarrow> pyfloat \<Rightarrow> pyfloat" where
  "minus_pyfloat a b = float_sub a b"

definition times_pyfloat :: "pyfloat \<Rightarrow> pyfloat \<Rightarrow> pyfloat" where
  "times_pyfloat a b = float_mul a b"

definition less_pyfloat :: "pyfloat \<Rightarrow> pyfloat \<Rightarrow> bool" where
  "less_pyfloat a b = float_lt a b"

definition less_eq_pyfloat :: "pyfloat \<Rightarrow> pyfloat \<Rightarrow> bool" where
  "less_eq_pyfloat a b \<longleftrightarrow> float_lt a b \<or> float_eq a b"

instance ..

end

section \<open>MiniBuffer\<close>

record 'a MiniBuffer =
  data :: "'a list"
  shape :: "nat list"
  strides :: "nat list"

datatype BinaryOp = ADD | SUB | MUL | MAXIMUM

text \<open>
  \<open>get_strides_from_shape\<close>: one stride per axis, the product of the sizes after it, and
  1 for the last axis.
\<close>

definition get_strides_from_shape :: "nat list \<Rightarrow> nat list" where
  "get_strides_from_shape shp =
     map (\<lambda>dim_idx. if Suc dim_idx = length shp then 1
                     else prod_list (drop (dim_idx + 1) shp))
         [0..<length shp]"

text \<open>The constructor: without explicit strides the buffer is contiguous.\<close>

definition MiniBuffer_init :: "'a list \<Rightarrow> nat list \<Rightarrow> nat list option \<Rightarrow> 'a MiniBuffer" where
  "MiniBuffer_init d shp st =
     \<lparr>data = d, shape = shp,
      strides = (case st of None \<Rightarrow> get_strides_from_shape shp | Some s \<Rightarrow> s)\<rparr>"

definition fill :: "nat list \<Rightarrow> 'a \<Rightarrow> 'a MiniBuffer" where
  "fill shp v = MiniBuffer_init (replicate (prod_list shp) v) shp None"

definition full_like :: "'a MiniBuffer \<Rightarrow> 'a \<Rightarrow> 'a MiniBuffer" where
  "full_like input v = fill (shape input) v"

text \<open>
  \<open>_apply_op_binary\<close>, with the operators of the element type. Python's \<open>max(x, y)\<close>
  returns \<open>y\<close> when \<open>y > x\<close> and \<open>x\<close> otherwise. DIV and POW (which raise on a zero
  divisor and leave the reals on a negative base) and the unary operators are used by
  none of the operations verified here.
\<close>

fun apply_op_binary :: "BinaryOp \<Rightarrow> 'a::{plus, minus, times, ord} \<Rightarrow> 'a \<Rightarrow> 'a" where
  "apply_op_binary ADD a b = a + b"
| "apply_op_binary SUB a b = a - b"
| "apply_op_binary MUL a b = a * b"
| "apply_op_binary MAXIMUM a b = (if a < b then b else a)"

lemma ebind_cong [fundef_cong]:
  "m = m' \<Longrightarrow> (\<And>v. m' = Inr v \<Longrightarrow> f v = f' v) \<Longrightarrow> ebind m f = ebind m' f'"
  by (cases m') (simp_all add: ebind_def)

lemma for_extend_cong [fundef_cong]:
  "idxs = idxs' \<Longrightarrow> (\<And>i. i \<in> set idxs' \<Longrightarrow> body i = body' i)
     \<Longrightarrow> for_extend idxs body = for_extend idxs' body'"
  by (induction idxs' arbitrary: idxs) (auto cong: ebind_cong)

text \<open>
  \<open>_traverse_dims_and_apply_op\<close> with two operands (the binary operators). The test
  \<open>depth_idx == len(shape) - 1\<close> is written \<open>Suc depth_idx = length (shape x)\<close>: for a
  buffer of rank 0 it is false at depth 0, and the other branch then reads
  \<open>shape[0]\<close>, which raises. \<open>current_positions\<close> is the pair of read positions.
\<close>

function traverse_dims_and_apply_op ::
  "nat \<Rightarrow> nat \<times> nat \<Rightarrow> BinaryOp \<Rightarrow> 'a::{plus, minus, times, ord} MiniBuffer \<Rightarrow> 'a MiniBuffer
     \<Rightarrow> error + 'a list" where
  "traverse_dims_and_apply_op depth_idx current_positions op x y =
     (if Suc depth_idx = length (shape x) then
        ebind (list_get (shape x) depth_idx) (\<lambda>n.
        for_extend [0..<n] (\<lambda>val_idx.
          ebind (list_get (strides x) depth_idx) (\<lambda>sx.
          ebind (list_get (strides y) depth_idx) (\<lambda>sy.
          ebind (list_get (data x) (fst current_positions + val_idx * sx)) (\<lambda>xv.
          ebind (list_get (data y) (snd current_positions + val_idx * sy)) (\<lambda>yv.
          Inr [apply_op_binary op xv yv]))))))
      else
        ebind (list_get (shape x) depth_idx) (\<lambda>n.
        for_extend [0..<n] (\<lambda>dim_idx.
          ebind (list_get (strides x) depth_idx) (\<lambda>sx.
          ebind (list_get (strides y) depth_idx) (\<lambda>sy.
          traverse_dims_and_apply_op (depth_idx + 1)
            (fst current_positions + dim_idx * sx, snd current_positions + dim_idx * sy)
            op x y)))))"
  by pat_completeness auto
termination
  by (relation "measure (\<lambda>(d, p, op, x, y). length (shape x) - d)")
     (auto simp: list_get_def split: if_splits)

definition add ::
  "'a::{plus, minus, times, ord} MiniBuffer \<Rightarrow> 'a MiniBuffer \<Rightarrow> error + 'a MiniBuffer" where
  "add self other =
     ebind (traverse_dims_and_apply_op 0 (0, 0) ADD self other) (\<lambda>out_data.
     Inr (MiniBuffer_init out_data (shape self) None))"

text \<open>
  \<open>_traverse_dims_and_sum_along_last\<close>: one sum per run along the last axis, added up
  from \<open>0.0\<close> in reading order. The sums, \<open>expand\<close> and the comparison of two buffers
  are verified with real elements and typed so.
\<close>

function traverse_dims_and_sum_along_last ::
  "nat \<Rightarrow> nat \<Rightarrow> real MiniBuffer \<Rightarrow> error + real list" where
  "traverse_dims_and_sum_along_last depth_idx current_position x =
     (if Suc depth_idx = length (shape x) then
        ebind (list_get (shape x) depth_idx) (\<lambda>n.
        ebind (for_extend [0..<n] (\<lambda>val_idx.
                 ebind (list_get (strides x) depth_idx) (\<lambda>sx.
                 ebind (list_get (data x) (current_position + val_idx * sx)) (\<lambda>v.
                 Inr [v])))) (\<lambda>vs.
        Inr [foldl (+) 0 vs]))
      else
        ebind (list_get (shape x) depth_idx) (\<lambda>n.
        for_extend [0..<n] (\<lambda>dim_idx.
          ebind (list_get (strides x) depth_idx) (\<lambda>sx.
          traverse_dims_and_sum_along_last (depth_idx + 1)
            (current_position + dim_idx * sx) x))))"
  by pat_completeness auto
termination
  by (relation "measure (\<lambda>(d, p, x). length (shape x) - d)")
     (auto simp: list_get_def split: if_splits)

text \<open>
  \<open>permute\<close>: shape and strides are reordered by \<open>order\<close>, over the same data, and the
  result is added to a buffer of zeros, which reads it by its strides into a new
  contiguous buffer.
\<close>

fun permute_dims :: "'a MiniBuffer \<Rightarrow> nat list \<Rightarrow> error + (nat list \<times> nat list)" where
  "permute_dims self [] = Inr ([], [])"
| "permute_dims self (ord # order) =
     ebind (list_get (shape self) ord) (\<lambda>d.
     ebind (list_get (strides self) ord) (\<lambda>s.
     ebind (permute_dims self order) (\<lambda>(new_dims, new_strides).
     Inr (d # new_dims, s # new_strides))))"

definition permute ::
  "'a::{zero, plus, minus, times, ord} MiniBuffer \<Rightarrow> nat list \<Rightarrow> error + 'a MiniBuffer" where
  "permute self order =
     ebind (permute_dims self order) (\<lambda>(new_dims, new_strides).
     let result = MiniBuffer_init (data self) new_dims (Some new_strides)
     in add result (full_like result 0))"

text \<open>
  The simultaneous assignment \<open>xs[axis], xs[-1] = xs[-1], xs[axis]\<close>: both reads come
  first and raise on an empty list or an axis out of range.
\<close>

definition swap_with_last :: "'a list \<Rightarrow> nat \<Rightarrow> error + 'a list" where
  "swap_with_last xs axis =
     (if xs = [] \<or> length xs \<le> axis then Inl IndexError
      else Inr ((xs[axis := last xs])[length xs - 1 := xs ! axis]))"

definition sum_axis :: "real MiniBuffer \<Rightarrow> nat \<Rightarrow> error + real MiniBuffer" where
  "sum_axis self axis =
     (let out_shape = map (\<lambda>dim_idx. if dim_idx = axis then 1 else shape self ! dim_idx)
                          [0..<length (shape self)];
          dim_order = [0..<length (shape self)]
      in ebind (swap_with_last dim_order axis) (\<lambda>dim_order.
         ebind (swap_with_last out_shape axis) (\<lambda>out_shape.
         ebind (permute self dim_order) (\<lambda>x.
         ebind (traverse_dims_and_sum_along_last 0 0 x) (\<lambda>out_data.
         let x = MiniBuffer_init out_data out_shape None
         in ebind (permute x dim_order) (\<lambda>result.
            add result (full_like result 0)))))))"

definition reshape :: "'a MiniBuffer \<Rightarrow> nat list \<Rightarrow> 'a MiniBuffer" where
  "reshape self new_shape = MiniBuffer_init (data self) new_shape None"

text \<open>
  \<open>expand\<close>: the data is repeated \<open>expanded_size\<close> times, the size at \<open>axis\<close> becomes
  \<open>expanded_size\<close> and the stride at \<open>axis\<close> the product of the sizes of the input with
  a 1 at \<open>axis\<close>; each list assignment raises when \<open>axis\<close> is out of range.
\<close>

definition expand :: "real MiniBuffer \<Rightarrow> nat \<Rightarrow> nat \<Rightarrow> error + real MiniBuffer" where
  "expand self axis expanded_size =
     (let out_data = concat (replicate expanded_size (data self))
      in if length (shape self) \<le> axis then Inl IndexError
      else let out_shape = (shape self)[axis := expanded_size];
               corrected_input_shape =
                 map (\<lambda>i. if i = axis then 1 else shape self ! i) [0..<length (shape self)]
      in if length (strides self) \<le> axis then Inl IndexError
      else let out_strides = (strides self)[axis := prod_list corrected_input_shape];
               result = MiniBuffer_init out_data out_shape (Some out_strides)
      in add result (full_like result 0))"

definition is_scalar :: "'a MiniBuffer \<Rightarrow> bool" where
  "is_scalar self = (length (shape self) = 1)"

text \<open>
  \<open>__getitem__\<close>: the keys are integers supplied by the caller; the position is the sum
  of \<open>strides[dim_idx] * key\<close> and is used to index the data as it is.
\<close>

fun item_pos_loop :: "nat list \<Rightarrow> nat \<Rightarrow> int list \<Rightarrow> int \<Rightarrow> error + int" where
  "item_pos_loop st dim_idx [] item_pos = Inr item_pos"
| "item_pos_loop st dim_idx (key # keys) item_pos =
     ebind (list_get st dim_idx) (\<lambda>s.
     item_pos_loop st (dim_idx + 1) keys (item_pos + int s * key))"

definition getitem :: "'a MiniBuffer \<Rightarrow> int list \<Rightarrow> error + 'a" where
  "getitem self keys =
     ebind (item_pos_loop (strides self) 0 keys 0) (\<lambda>item_pos.
     py_get (data self) item_pos)"

section \<open>What a traversal reads\<close>

text \<open>
  The multi-indices of a shape, in row-major order (the order in which the traversals
  visit the elements), and the distance a multi-index moves the read position under a
  list of strides.
\<close>

fun multi_indices :: "nat list \<Rightarrow> nat list list" where
  "multi_indices [] = [[]]"
| "multi_indices (n # ns) = concat (map (\<lambda>i. map ((#) i) (multi_indices ns)) [0..<n])"

fun offset :: "nat list \<Rightarrow> nat list \<Rightarrow> nat" where
  "offset (k # ks) (s # ss) = k * s + offset ks ss"
| "offset ks ss = 0"

lemma ebind_Inr [simp]: "ebind (Inr v) f = f v"
  by (simp add: ebind_def)

lemma ebind_Inl [simp]: "ebind (Inl e) f = Inl e"
  by (simp add: ebind_def)

lemma list_get_in [simp]: "i < length xs \<Longrightarrow> list_get xs i = Inr (xs ! i)"
  by (simp add: list_get_def)

lemma list_get_out [simp]: "length xs \<le> i \<Longrightarrow> list_get xs i = Inl IndexError"
  by (simp add: list_get_def)

lemma for_extend_Inr:
  "(\<And>i. i \<in> set idxs \<Longrightarrow> body i = Inr (g i)) \<Longrightarrow> for_extend idxs body = Inr (concat (map g idxs))"
  by (induction idxs) simp_all

declare traverse_dims_and_apply_op.simps [simp del]

declare traverse_dims_and_sum_along_last.simps [simp del]

lemma multi_indices_single: "multi_indices [n] = map (\<lambda>i. [i]) [0..<n]"
  by (simp add: concat_map_singleton)

lemma concat_map_map:
  "concat (map (\<lambda>i. map (\<lambda>k. f (i # k)) ks) idxs) = map f (concat (map (\<lambda>i. map ((#) i) ks) idxs))"
  by (induction idxs) simp_all

lemma traverse_apply_op_reads:
  assumes "d < length (shape x)"
    and "length (shape x) \<le> length (strides x)"
    and "length (shape x) \<le> length (strides y)"
    and "\<And>k. k \<in> set (multi_indices (drop d (shape x))) \<Longrightarrow>
           fst p + offset k (drop d (strides x)) < length (data x) \<and>
           snd p + offset k (drop d (strides y)) < length (data y)"
  shows "traverse_dims_and_apply_op d p op x y =
           Inr (map (\<lambda>k. apply_op_binary op (data x ! (fst p + offset k (drop d (strides x))))
                                              (data y ! (snd p + offset k (drop d (strides y)))))
                    (multi_indices (drop d (shape x))))"
  using assms
proof (induction d p op x y rule: traverse_dims_and_apply_op.induct)
  case (1 d p op x y)
  let ?n = "shape x ! d"
  let ?sx = "strides x ! d"
  let ?sy = "strides y ! d"
  let ?f = "\<lambda>q rx ry k. apply_op_binary op (data x ! (fst q + offset k rx)) (data y ! (snd q + offset k ry))"
  have dx: "drop d (strides x) = ?sx # drop (Suc d) (strides x)"
    using 1 by (simp add: Cons_nth_drop_Suc)
  have dy: "drop d (strides y) = ?sy # drop (Suc d) (strides y)"
    using 1 by (simp add: Cons_nth_drop_Suc)
  have ds: "drop d (shape x) = ?n # drop (Suc d) (shape x)"
    using 1 by (simp add: Cons_nth_drop_Suc)
  show ?case
  proof (cases "Suc d = length (shape x)")
    case True
    then have ds1: "drop d (shape x) = [?n]" using ds by simp
    have rd: "fst p + i * ?sx < length (data x) \<and> snd p + i * ?sy < length (data y)" if "i < ?n" for i
    proof -
      from that have "[i] \<in> set (multi_indices (drop d (shape x)))"
        by (simp add: ds1 multi_indices_single)
      from "1.prems"(4)[OF this] show ?thesis
        by (simp add: dx dy)
    qed
    have "traverse_dims_and_apply_op d p op x y =
        for_extend [0..<?n] (\<lambda>i. Inr [apply_op_binary op (data x ! (fst p + i * ?sx)) (data y ! (snd p + i * ?sy))])"
      using True "1.prems"(1-3) rd
      by (subst traverse_dims_and_apply_op.simps) (auto intro!: for_extend_cong)
    also have "\<dots> = Inr (concat (map (\<lambda>i. [apply_op_binary op (data x ! (fst p + i * ?sx)) (data y ! (snd p + i * ?sy))]) [0..<?n]))"
      by (rule for_extend_Inr) simp
    finally show ?thesis
      by (simp add: ds1 multi_indices_single dx dy comp_def)
  next
    case False
    have IH: "traverse_dims_and_apply_op (Suc d) (fst p + i * ?sx, snd p + i * ?sy) op x y =
        Inr (map (\<lambda>k. apply_op_binary op (data x ! (fst p + offset (i # k) (drop d (strides x))))
                                          (data y ! (snd p + offset (i # k) (drop d (strides y)))))
                    (multi_indices (drop (Suc d) (shape x))))" if i: "i < ?n" for i
    proof -
      have rd: "fst (fst p + i * ?sx, snd p + i * ?sy) + offset k (drop (d + 1) (strides x)) < length (data x) \<and>
           snd (fst p + i * ?sx, snd p + i * ?sy) + offset k (drop (d + 1) (strides y)) < length (data y)"
        if "k \<in> set (multi_indices (drop (d + 1) (shape x)))" for k
      proof -
        from that have "i # k \<in> set (multi_indices (drop d (shape x)))"
          using i by (auto simp: ds)
        from "1.prems"(4)[OF this] show ?thesis
          by (simp add: dx dy add.assoc)
      qed
      have "traverse_dims_and_apply_op (d + 1) (fst p + i * ?sx, snd p + i * ?sy) op x y =
        Inr (map (\<lambda>k. apply_op_binary op
               (data x ! (fst (fst p + i * ?sx, snd p + i * ?sy) + offset k (drop (d + 1) (strides x))))
               (data y ! (snd (fst p + i * ?sx, snd p + i * ?sy) + offset k (drop (d + 1) (strides y)))))
                    (multi_indices (drop (d + 1) (shape x))))"
        using False i "1.prems"(1-3) rd
        by (intro "1.IH") auto
      then show ?thesis by (simp add: dx dy add.assoc)
    qed
    have "traverse_dims_and_apply_op d p op x y =
        for_extend [0..<?n] (\<lambda>i. traverse_dims_and_apply_op (Suc d) (fst p + i * ?sx, snd p + i * ?sy) op x y)"
      using False "1.prems"(1-3)
      by (subst traverse_dims_and_apply_op.simps) (auto intro!: for_extend_cong)
    also have "\<dots> = Inr (concat (map (\<lambda>i. map (\<lambda>k. apply_op_binary op (data x ! (fst p + offset (i # k) (drop d (strides x))))
                                          (data y ! (snd p + offset (i # k) (drop d (strides y)))))
                    (multi_indices (drop (Suc d) (shape x)))) [0..<?n]))"
      by (rule for_extend_Inr) (simp add: IH)
    also have "\<dots> = Inr (map (\<lambda>k. apply_op_binary op (data x ! (fst p + offset k (drop d (strides x))))
                                          (data y ! (snd p + offset k (drop d (strides y)))))
                    (concat (map (\<lambda>i. map ((#) i) (multi_indices (drop (Suc d) (shape x)))) [0..<?n])))"
      by (simp only: concat_map_map[of "\<lambda>k. apply_op_binary op (data x ! (fst p + offset k (drop d (strides x))))
                                          (data y ! (snd p + offset k (drop d (strides y))))"])
    finally show ?thesis
      by (simp add: ds)
  qed
qed

lemma get_strides_from_shape_prod:
  "get_strides_from_shape shp = map (\<lambda>i. prod_list (drop (Suc i) shp)) [0..<length shp]"
  by (auto simp: get_strides_from_shape_def)

lemma get_strides_from_shape_Nil [simp]: "get_strides_from_shape [] = []"
  by (simp add: get_strides_from_shape_def)

lemma get_strides_from_shape_Cons [simp]:
  "get_strides_from_shape (n # ns) = prod_list ns # get_strides_from_shape ns"
proof -
  have "[0..<length (n # ns)] = 0 # map Suc [0..<length ns]"
    by (simp add: upt_conv_Cons map_Suc_upt del: upt_Suc)
  then show ?thesis
    by (simp add: get_strides_from_shape_prod comp_def del: upt_Suc)
qed

lemma length_get_strides_from_shape [simp]:
  "length (get_strides_from_shape shp) = length shp"
  by (simp add: get_strides_from_shape_def)

lemma upt_blocks: "concat (map (\<lambda>i. map (\<lambda>j. i * p + j) [0..<p]) [0..<n]) = [0..<n * p]"
proof (induction n)
  case 0
  then show ?case by simp
next
  case (Suc n)
  have "map (\<lambda>j. n * p + j) [0..<p] = [n * p..<n * p + p]"
    by (simp add: map_add_upt add.commute)
  moreover have "[0..<n * p] @ [n * p..<n * p + p] = [0..<n * p + p]"
    using upt_add_eq_append[of 0 "n * p" p] by simp
  ultimately show ?case using Suc
    by (simp add: add.commute)
qed

lemma offsets_contiguous:
  "map (\<lambda>k. offset k (get_strides_from_shape shp)) (multi_indices shp) = [0..<prod_list shp]"
proof (induction shp)
  case Nil
  then show ?case by simp
next
  case (Cons n ns)
  let ?p = "prod_list ns"
  have "map (\<lambda>k. offset k (get_strides_from_shape (n # ns))) (multi_indices (n # ns))
      = concat (map (\<lambda>i. map (\<lambda>k. i * ?p + offset k (get_strides_from_shape ns)) (multi_indices ns)) [0..<n])"
    by (simp add: map_concat comp_def)
  also have "\<dots> = concat (map (\<lambda>i. map (\<lambda>j. i * ?p + j) (map (\<lambda>k. offset k (get_strides_from_shape ns)) (multi_indices ns))) [0..<n])"
    by (simp add: comp_def)
  also have "\<dots> = [0..<n * ?p]"
    by (simp only: Cons.IH upt_blocks)
  finally show ?case by simp
qed

lemma length_multi_indices [simp]: "length (multi_indices shp) = prod_list shp"
  using arg_cong[OF offsets_contiguous, of length shp] by simp

lemma offset_contiguous_nth:
  assumes "j < prod_list shp"
  shows "offset (multi_indices shp ! j) (get_strides_from_shape shp) = j"
proof -
  have "map (\<lambda>k. offset k (get_strides_from_shape shp)) (multi_indices shp) ! j = [0..<prod_list shp] ! j"
    by (simp only: offsets_contiguous)
  then show ?thesis using assms by simp
qed

lemma offset_contiguous_less:
  assumes "k \<in> set (multi_indices shp)"
  shows "offset k (get_strides_from_shape shp) < prod_list shp"
proof -
  from assms have "offset k (get_strides_from_shape shp) \<in> set (map (\<lambda>k. offset k (get_strides_from_shape shp)) (multi_indices shp))"
    by simp
  then show ?thesis by (simp only: offsets_contiguous) simp
qed

lemma multi_indices_nth_offset:
  assumes "k \<in> set (multi_indices shp)"
  shows "multi_indices shp ! offset k (get_strides_from_shape shp) = k"
proof -
  from assms obtain j where j: "j < prod_list shp" "multi_indices shp ! j = k"
    by (auto simp: in_set_conv_nth)
  then show ?thesis using offset_contiguous_nth[OF j(1)] by simp
qed

lemma multi_indices_iff:
  "k \<in> set (multi_indices shp) \<longleftrightarrow> length k = length shp \<and> (\<forall>i < length shp. k ! i < shp ! i)"
proof (induction shp arbitrary: k)
  case Nil
  then show ?case by auto
next
  case (Cons n ns)
  show ?case
  proof (cases k)
    case Nil
    then show ?thesis by auto
  next
    case (Cons a k')
    have "(\<forall>i<Suc (length ns). (a # k') ! i < (n # ns) ! i) \<longleftrightarrow> a < n \<and> (\<forall>i<length ns. k' ! i < ns ! i)"
      by (auto simp: less_Suc_eq_0_disj)
    then show ?thesis using Cons Cons.IH[of k'] by auto
  qed
qed

text \<open>
  A buffer can be read by its strides when it has rank at least 1, one stride per axis,
  and every multi-index of its shape lands inside the data.
\<close>

definition readable :: "'a MiniBuffer \<Rightarrow> bool" where
  "readable b \<longleftrightarrow>
     shape b \<noteq> [] \<and> length (strides b) = length (shape b) \<and>
     (\<forall>k \<in> set (multi_indices (shape b)). offset k (strides b) < length (data b))"

text \<open>The element a buffer holds at a multi-index.\<close>

definition element :: "'a MiniBuffer \<Rightarrow> nat list \<Rightarrow> 'a" where
  "element b k = data b ! offset k (strides b)"

definition contiguous :: "'a MiniBuffer \<Rightarrow> bool" where
  "contiguous b \<longleftrightarrow>
     strides b = get_strides_from_shape (shape b) \<and> length (data b) = prod_list (shape b)"

lemma contiguous_readable: "contiguous b \<Longrightarrow> shape b \<noteq> [] \<Longrightarrow> readable b"
  by (auto simp: contiguous_def readable_def dest: offset_contiguous_less)

text \<open>
  Adding the buffer of zeros reads the buffer by its strides, in row-major order, and
  adds \<open>0\<close> to every element read.
\<close>

lemma add_zeros_plus:
  assumes "readable b"
  shows "add b (full_like b 0) =
           Inr \<lparr>data = map (\<lambda>k. element b k + 0) (multi_indices (shape b)), shape = shape b,
                strides = get_strides_from_shape (shape b)\<rparr>"
proof -
  let ?z = "full_like b 0"
  have z: "data ?z = replicate (prod_list (shape b)) 0" "strides ?z = get_strides_from_shape (shape b)"
    by (simp_all add: full_like_def fill_def MiniBuffer_init_def)
  have rd: "fst (0::nat, 0::nat) + offset k (drop 0 (strides b)) < length (data b) \<and>
            snd (0::nat, 0::nat) + offset k (drop 0 (strides ?z)) < length (data ?z)"
    if "k \<in> set (multi_indices (drop 0 (shape b)))" for k
    using that assms offset_contiguous_less[of k "shape b"] by (simp add: z readable_def)
  have "traverse_dims_and_apply_op 0 (0, 0) ADD b ?z =
          Inr (map (\<lambda>k. apply_op_binary ADD (data b ! (fst (0::nat, 0::nat) + offset k (drop 0 (strides b))))
                                              (data ?z ! (snd (0::nat, 0::nat) + offset k (drop 0 (strides ?z)))))
                   (multi_indices (drop 0 (shape b))))"
    using assms rd by (intro traverse_apply_op_reads) (auto simp: readable_def z)
  also have "\<dots> = Inr (map (\<lambda>k. element b k + 0) (multi_indices (shape b)))"
    using offset_contiguous_less by (auto simp: z element_def)
  finally show ?thesis
    by (simp add: add_def MiniBuffer_init_def)
qed

lemma add_zeros:
  fixes b :: "real MiniBuffer"
  assumes "readable b"
  shows "add b (full_like b 0) =
           Inr \<lparr>data = map (element b) (multi_indices (shape b)), shape = shape b,
                strides = get_strides_from_shape (shape b)\<rparr>"
  using add_zeros_plus[OF assms] by simp

lemma map_element_contiguous:
  assumes "contiguous b"
  shows "map (element b) (multi_indices (shape b)) = data b"
proof -
  have "map (element b) (multi_indices (shape b))
      = map ((!) (data b)) (map (\<lambda>k. offset k (get_strides_from_shape (shape b))) (multi_indices (shape b)))"
    using assms by (simp add: element_def contiguous_def comp_def)
  also have "\<dots> = map ((!) (data b)) [0..<length (data b)]"
    using assms by (simp only: offsets_contiguous contiguous_def)
  finally show ?thesis by (simp add: map_nth)
qed

lemma add_zeros_contiguous:
  fixes b :: "real MiniBuffer"
  assumes "contiguous b" "shape b \<noteq> []"
  shows "add b (full_like b 0) = Inr b"
  using add_zeros[OF contiguous_readable[OF assms]] map_element_contiguous[OF assms(1)] assms(1)
  by (simp add: contiguous_def)

lemma permute_dims_map:
  assumes "\<And>i. i \<in> set order \<Longrightarrow> i < length (shape b) \<and> i < length (strides b)"
  shows "permute_dims b order = Inr (map ((!) (shape b)) order, map ((!) (strides b)) order)"
  using assms by (induction order) simp_all

lemma permute_dims_out:
  assumes "i \<in> set order" "length (shape b) \<le> i \<or> length (strides b) \<le> i"
  shows "permute_dims b order = Inl IndexError"
  using assms
proof (induction order)
  case Nil
  then show ?case by simp
next
  case (Cons a order)
  then show ?case
    by (cases "a = i") (auto simp: list_get_def ebind_def split: sum.splits)
qed

lemma item_pos_loop_nat:
  assumes "d + length k \<le> length st"
  shows "item_pos_loop st d (map int k) acc = Inr (acc + int (offset k (drop d st)))"
  using assms
proof (induction k arbitrary: d acc)
  case Nil
  then show ?case by simp
next
  case (Cons a k)
  then have "drop d st = st ! d # drop (Suc d) st"
    by (simp add: Cons_nth_drop_Suc)
  then show ?case using Cons by (simp add: mult.commute)
qed

lemma py_get_nat [simp]: "py_get xs (int n) = list_get xs n"
  by (simp add: py_get_def list_get_def)

lemma getitem_nat:
  assumes "length k \<le> length (strides b)"
  shows "getitem b (map int k) = list_get (data b) (offset k (strides b))"
  using item_pos_loop_nat[of 0 k "strides b" 0] assms by (simp add: getitem_def)

lemma getitem_element:
  assumes "readable b" "k \<in> set (multi_indices (shape b))"
  shows "getitem b (map int k) = Inr (element b k)"
  using assms by (simp add: getitem_nat readable_def multi_indices_iff element_def)

lemma element_materialised:
  assumes "k \<in> set (multi_indices shp)"
  shows "element \<lparr>data = map f (multi_indices shp), shape = shp, strides = get_strides_from_shape shp\<rparr> k = f k"
  using assms offset_contiguous_less[OF assms] multi_indices_nth_offset[OF assms]
  by (simp add: element_def)

lemma materialised_contiguous:
  "contiguous \<lparr>data = map f (multi_indices shp), shape = shp, strides = get_strides_from_shape shp\<rparr>"
  by (simp add: contiguous_def)

section \<open>Permuting with the identity order\<close>

text \<open>
  The identity order leaves shape and strides as they are, so the result of \<open>permute\<close>
  is what adding the buffer of zeros to the input gives.
\<close>

lemma permute_identity_result:
  assumes "readable X"
  shows "permute X [0..<length (shape X)] =
           Inr \<lparr>data = map (\<lambda>k. element X k + 0) (multi_indices (shape X)), shape = shape X,
                strides = get_strides_from_shape (shape X)\<rparr>"
proof -
  have "permute_dims X [0..<length (shape X)] = Inr (shape X, strides X)"
    using assms permute_dims_map[of "[0..<length (shape X)]" X]
    by (simp add: readable_def map_nth) (metis map_nth)
  moreover have "MiniBuffer_init (data X) (shape X) (Some (strides X)) = X"
    by (simp add: MiniBuffer_init_def)
  ultimately show ?thesis
    using add_zeros_plus[OF assms] by (simp add: permute_def)
qed

text \<open>
  A buffer of rank 0 is permuted by the empty order only; the traversal then reads
  \<open>shape[0]\<close> and raises.
\<close>

lemma permute_rank0:
  assumes "shape X = []"
  shows "permute X [] = Inl IndexError"
  using assms
  by (simp add: permute_def MiniBuffer_init_def add_def full_like_def fill_def)
     (subst traverse_dims_and_apply_op.simps, simp)

text \<open>
  Strides that lead out of the data make the traversal raise as well: the buffer has to
  be readable by its strides.
\<close>

lemma permute_unreadable_example:
  "\<not> readable \<lparr>data = [Finite 1, Finite 2], shape = [2], strides = [2]\<rparr> \<and>
   permute \<lparr>data = [Finite 1, Finite 2], shape = [2], strides = [2]\<rparr> [0] = Inl IndexError"
proof -
  have "permute \<lparr>data = [Finite 1, Finite 2], shape = [2], strides = [2]\<rparr> [0] = Inl IndexError"
    by (simp add: permute_def MiniBuffer_init_def add_def full_like_def fill_def)
       (subst traverse_dims_and_apply_op.simps, simp add: upt_rec)
  then show ?thesis by (simp add: readable_def upt_rec)
qed

text \<open>
  Adding \<open>0.0\<close> to a float gives the float back, except that \<open>-0.0\<close> becomes \<open>0.0\<close>. The
  sum is equal to the float, in the sense of \<open>==\<close>, unless the float is NaN.
\<close>

lemma float_plus_zero: "a + 0 = (if a = NegZero then Finite 0 else a)"
  by (cases a) (simp_all add: plus_pyfloat_def zero_pyfloat_def)

lemma float_eq_plus_zero: "float_eq (a + 0) a \<longleftrightarrow> a \<noteq> NaN"
  by (cases a) (simp_all add: plus_pyfloat_def zero_pyfloat_def)

text \<open>
  C9 (as amended). A buffer of floats of rank 0 cannot be permuted: \<open>permute\<close> raises
  IndexError. For every buffer of floats of rank at least 1 that can be read by its
  strides (every contiguous buffer of rank at least 1 is one), permuting with the
  identity order succeeds; the result has the same shape, is contiguous, and holds at
  every multi-index of the shape the element the input holds there plus \<open>0.0\<close>. The two
  elements are equal, in the sense of \<open>==\<close>, exactly when the input's element is not NaN.
\<close>

theorem permute_identity_elementwise:
  fixes X :: "pyfloat MiniBuffer"
  shows "(shape X = [] \<longrightarrow> permute X [0..<length (shape X)] = Inl IndexError) \<and>
         (readable X \<longrightarrow>
           (\<exists>R. permute X [0..<length (shape X)] = Inr R \<and> shape R = shape X \<and> contiguous R \<and>
              (\<forall>k \<in> set (multi_indices (shape X)).
                 \<exists>r v. getitem R (map int k) = Inr r \<and> getitem X (map int k) = Inr v \<and>
                       r = v + 0 \<and> (float_eq r v \<longleftrightarrow> v \<noteq> NaN))))"
proof (intro conjI impI)
  assume "shape X = []"
  then show "permute X [0..<length (shape X)] = Inl IndexError"
    using permute_rank0[of X] by simp
next
  assume rd: "readable X"
  let ?R = "\<lparr>data = map (\<lambda>k. element X k + 0) (multi_indices (shape X)), shape = shape X,
                strides = get_strides_from_shape (shape X)\<rparr>"
  have r: "permute X [0..<length (shape X)] = Inr ?R"
    by (rule permute_identity_result[OF rd])
  have c: "contiguous ?R" by (rule materialised_contiguous)
  have rr: "readable ?R"
    using rd by (intro contiguous_readable[OF c]) (simp add: readable_def)
  have e: "\<exists>r v. getitem ?R (map int k) = Inr r \<and> getitem X (map int k) = Inr v \<and>
                 r = v + 0 \<and> (float_eq r v \<longleftrightarrow> v \<noteq> NaN)"
    if "k \<in> set (multi_indices (shape X))" for k
  proof -
    have "getitem ?R (map int k) = Inr (element X k + 0)"
      using getitem_element[OF rr, of k] that
        element_materialised[OF that, of "\<lambda>k. element X k + 0"] by simp
    moreover have "getitem X (map int k) = Inr (element X k)"
      by (rule getitem_element[OF rd that])
    ultimately show ?thesis by (simp add: float_eq_plus_zero)
  qed
  show "\<exists>R. permute X [0..<length (shape X)] = Inr R \<and> shape R = shape X \<and> contiguous R \<and>
              (\<forall>k \<in> set (multi_indices (shape X)).
                 \<exists>r v. getitem R (map int k) = Inr r \<and> getitem X (map int k) = Inr v \<and>
                       r = v + 0 \<and> (float_eq r v \<longleftrightarrow> v \<noteq> NaN))"
    using r c e by (intro exI[of _ ?R]) simp
qed

text \<open>
  Examples: a contiguous 2 by 2 buffer of floats that holds \<open>-0.0\<close> and an infinity, the
  one-element buffer that holds NaN, and the buffer of rank 0 that \<open>fill((), 1.0)\<close>
  builds.
\<close>

definition float_matrix :: "pyfloat MiniBuffer" where
  "float_matrix = MiniBuffer_init [Finite 1, NegZero, PosInf, Finite 4] [2, 2] None"

definition nan_buffer :: "pyfloat MiniBuffer" where
  "nan_buffer = MiniBuffer_init [NaN] [1] None"

definition rank0_buffer :: "pyfloat MiniBuffer" where
  "rank0_buffer = fill [] (Finite 1)"

lemma float_matrix_readable: "readable float_matrix"
  by (rule contiguous_readable)
     (simp_all add: float_matrix_def MiniBuffer_init_def contiguous_def)

lemma nan_buffer_readable: "readable nan_buffer"
  by (rule contiguous_readable)
     (simp_all add: nan_buffer_def MiniBuffer_init_def contiguous_def)

theorem permute_identity_elementwise_witness:
  "shape rank0_buffer = [] \<and> permute rank0_buffer [] = Inl IndexError \<and>
   readable float_matrix \<and> [0, 1] \<in> set (multi_indices (shape float_matrix)) \<and>
   (\<exists>R. permute float_matrix [0, 1] = Inr R \<and> shape R = [2, 2] \<and>
        getitem float_matrix [0, 1] = Inr NegZero \<and> getitem R [0, 1] = Inr (Finite 0) \<and>
        float_eq (Finite 0) NegZero)"
proof -
  have s0: "shape rank0_buffer = []"
    by (simp add: rank0_buffer_def fill_def MiniBuffer_init_def)
  have s: "shape float_matrix = [2, 2]" "[0..<length (shape float_matrix)] = [0, 1]"
    by (simp_all add: float_matrix_def MiniBuffer_init_def upt_rec)
  have k: "[0, 1] \<in> set (multi_indices (shape float_matrix))"
    by (simp add: s multi_indices_iff less_Suc_eq numeral_2_eq_2)
  have g: "getitem float_matrix [0, 1] = Inr NegZero"
    by (simp add: float_matrix_def MiniBuffer_init_def getitem_def py_get_def)
  have "permute rank0_buffer [] = Inl IndexError"
    using permute_identity_elementwise[of rank0_buffer] s0 by simp
  moreover from permute_identity_elementwise[of float_matrix] float_matrix_readable
  obtain R where R: "permute float_matrix [0, 1] = Inr R" "shape R = [2, 2]"
    "\<forall>k \<in> set (multi_indices (shape float_matrix)).
       \<exists>r v. getitem R (map int k) = Inr r \<and> getitem float_matrix (map int k) = Inr v \<and>
             r = v + 0 \<and> (float_eq r v \<longleftrightarrow> v \<noteq> NaN)"
    by (auto simp: s)
  from R(3) k have "\<exists>r v. getitem R (map int [0, 1]) = Inr r \<and>
      getitem float_matrix (map int [0, 1]) = Inr v \<and> r = v + 0 \<and> (float_eq r v \<longleftrightarrow> v \<noteq> NaN)"
    by blast
  then have "getitem R [0, 1] = Inr (Finite 0)"
    using g by (auto simp: float_plus_zero)
  ultimately show ?thesis
    using s0 float_matrix_readable k R(1,2) g by auto
qed

text \<open>
  Two buffers for which the result is not a buffer elementwise equal to the input: for
  the buffer of rank 0 there is no result, and for the buffer that holds NaN the
  result holds NaN as well, which \<open>!=\<close> reports as different from the input's element.
\<close>

theorem permute_identity_counterexample:
  "permute rank0_buffer [] = Inl IndexError \<and>
   permute nan_buffer [0] = Inr nan_buffer \<and>
   getitem nan_buffer [0] = Inr NaN \<and> \<not> float_eq NaN NaN"
proof -
  have "permute rank0_buffer [] = Inl IndexError"
    by (rule permute_rank0) (simp add: rank0_buffer_def fill_def MiniBuffer_init_def)
  moreover have "permute nan_buffer [0] = Inr nan_buffer"
    using permute_identity_result[OF nan_buffer_readable]
    by (simp add: nan_buffer_def MiniBuffer_init_def element_def plus_pyfloat_def
        zero_pyfloat_def)
  moreover have "getitem nan_buffer [0] = Inr NaN"
    by (simp add: nan_buffer_def MiniBuffer_init_def getitem_def py_get_def)
  ultimately show ?thesis by simp
qed

definition example_matrix :: "real MiniBuffer" where
  "example_matrix = MiniBuffer_init [10, 11, 12, 13, 14, 15] [2, 3] None"

lemma example_matrix_contiguous: "contiguous example_matrix"
  by (simp add: example_matrix_def MiniBuffer_init_def contiguous_def)

lemma example_matrix_readable: "readable example_matrix"
  by (rule contiguous_readable[OF example_matrix_contiguous])
     (simp add: example_matrix_def MiniBuffer_init_def)

section \<open>Indexing without bounds checks\<close>

text \<open>The position that a key addresses: the sum of \<open>strides[i] * key[i]\<close>.\<close>

fun key_position :: "nat list \<Rightarrow> int list \<Rightarrow> int" where
  "key_position (s # st) (key # keys) = int s * key + key_position st keys"
| "key_position st keys = 0"

lemma item_pos_loop_position:
  assumes "d + length keys \<le> length st"
  shows "item_pos_loop st d keys acc = Inr (acc + key_position (drop d st) keys)"
  using assms
proof (induction keys arbitrary: d acc)
  case Nil
  then show ?case by (cases "drop d st") simp_all
next
  case (Cons key keys)
  then have "drop d st = st ! d # drop (Suc d) st"
    by (simp add: Cons_nth_drop_Suc)
  then show ?case using Cons by simp
qed

lemma getitem_position:
  assumes "length keys \<le> length (strides b)"
  shows "getitem b keys = py_get (data b) (key_position (strides b) keys)"
  using item_pos_loop_position[of 0 keys "strides b" 0] assms by (simp add: getitem_def)

text \<open>
  C10. \<open>__getitem__\<close> adds up \<open>strides[i] * key[i]\<close> and indexes the data with the sum;
  no key is compared with the size of its axis. In the contiguous 2 by 3 buffer with the
  distinct elements 10 .. 15, the key (0, 4) has its second component beyond the size 3
  of that axis, its position 4 lies inside the data, and indexing returns 14, the element
  of the position (1, 1).
\<close>

theorem getitem_no_bounds_check:
  "(\<forall>b keys. length keys \<le> length (strides b) \<longrightarrow>
      getitem b keys = py_get (data b) (key_position (strides b) keys)) \<and>
   contiguous example_matrix \<and> shape example_matrix = [2, 3] \<and>
   distinct (data example_matrix) \<and>
   shape example_matrix ! 1 \<le> 4 \<and>
   key_position (strides example_matrix) [0, 4] = 4 \<and>
   4 < length (data example_matrix) \<and>
   getitem example_matrix [0, 4] = Inr 14 \<and>
   getitem example_matrix [1, 1] = Inr 14"
proof -
  have "contiguous example_matrix \<and> shape example_matrix = [2, 3] \<and>
   distinct (data example_matrix) \<and>
   shape example_matrix ! 1 \<le> 4 \<and>
   key_position (strides example_matrix) [0, 4] = 4 \<and>
   4 < length (data example_matrix) \<and>
   getitem example_matrix [0, 4] = Inr 14 \<and>
   getitem example_matrix [1, 1] = Inr 14"
    by (simp add: example_matrix_contiguous)
       (simp add: example_matrix_def MiniBuffer_init_def getitem_def py_get_def)
  then show ?thesis using getitem_position by blast
qed

theorem getitem_no_bounds_check_witness:
  "length [0, 4 :: int] \<le> length (strides example_matrix) \<and>
   getitem example_matrix [0, 4] =
     py_get (data example_matrix) (key_position (strides example_matrix) [0, 4]) \<and>
   py_get (data example_matrix) (key_position (strides example_matrix) [0, 4]) = Inr 14"
proof -
  have h: "length [0, 4 :: int] \<le> length (strides example_matrix)"
    by (simp add: example_matrix_def MiniBuffer_init_def)
  from getitem_no_bounds_check h show ?thesis by metis
qed

section \<open>Comparing two buffers\<close>

text \<open>
  \<open>_compare\<close>: the loop over the last axis returns False at the first pair of elements
  that differ and True when it runs to its end.
\<close>

fun compare_loop ::
  "nat list \<Rightarrow> nat \<Rightarrow> nat \<times> nat \<Rightarrow> real MiniBuffer \<Rightarrow> real MiniBuffer \<Rightarrow> error + bool" where
  "compare_loop [] depth_idx current_positions x target = Inr True"
| "compare_loop (val_idx # rest) depth_idx current_positions x target =
     ebind (list_get (strides x) depth_idx) (\<lambda>sx.
     ebind (list_get (strides target) depth_idx) (\<lambda>st.
     ebind (list_get (data x) (fst current_positions + val_idx * sx)) (\<lambda>xv.
     ebind (list_get (data target) (snd current_positions + val_idx * st)) (\<lambda>tv.
     if xv \<noteq> tv then Inr False
     else compare_loop rest depth_idx current_positions x target))))"

definition compare_buffers ::
  "nat \<Rightarrow> nat \<times> nat \<Rightarrow> real MiniBuffer \<Rightarrow> real MiniBuffer \<Rightarrow> error + bool" where
  "compare_buffers depth_idx current_positions x target =
     ebind (list_get (shape x) depth_idx) (\<lambda>n.
     compare_loop [0..<n] depth_idx current_positions x target)"

text \<open>
  In \<open>_traverse_dims_and_compare\<close> the parameter \<open>current_position\<close> is the tuple
  \<open>(0, 0)\<close> that \<open>is_equal_to\<close> passes, and the loop body adds an integer to it:
  Python raises TypeError for \<open>tuple + int\<close>.
\<close>

definition tuple_add_int :: "nat \<times> nat \<Rightarrow> nat \<Rightarrow> error + nat" where
  "tuple_add_int t n = Inl TypeError"

text \<open>
  The loop body ends in \<open>return\<close>, so only its first iteration runs; when the axis has
  size 0 the loop is skipped and the function falls off its end, returning Python's
  \<open>None\<close> (here \<open>Inr None\<close>).
\<close>

function traverse_dims_and_compare ::
  "nat \<Rightarrow> nat \<times> nat \<Rightarrow> real MiniBuffer \<Rightarrow> real MiniBuffer \<Rightarrow> error + bool option" where
  "traverse_dims_and_compare depth_idx current_position x target =
     (if Suc depth_idx = length (shape x) then
        ebind (compare_buffers depth_idx current_position x target) (\<lambda>b. Inr (Some b))
      else
        ebind (list_get (shape x) depth_idx) (\<lambda>n.
        case [0..<n] of
          [] \<Rightarrow> Inr None
        | dim_idx # _ \<Rightarrow>
            ebind (list_get (strides x) depth_idx) (\<lambda>sx.
            ebind (tuple_add_int current_position (dim_idx * sx)) (\<lambda>x_pos.
            ebind (list_get (strides target) depth_idx) (\<lambda>st.
            traverse_dims_and_compare (depth_idx + 1) (x_pos, dim_idx * st) x target)))))"
  by pat_completeness auto
termination
  by (relation "measure (\<lambda>(d, p, x, t). length (shape x) - d)")
     (auto simp: list_get_def split: if_splits)

declare traverse_dims_and_compare.simps [simp del]

definition is_equal_to :: "real MiniBuffer \<Rightarrow> real MiniBuffer \<Rightarrow> error + bool option" where
  "is_equal_to self target = traverse_dims_and_compare 0 (0, 0) self target"

lemma compare_loop_all:
  assumes "\<And>i. i \<in> set idxs \<Longrightarrow> i < length xs \<and> i < length ts"
  shows "compare_loop idxs 0 (0, 0) \<lparr>data = xs, shape = [n], strides = [1]\<rparr>
           \<lparr>data = ts, shape = [n], strides = [1]\<rparr> = Inr (\<forall>i \<in> set idxs. xs ! i = ts ! i)"
  using assms by (induction idxs) auto

text \<open>
  On buffers of rank 1 the comparison is the one the claim describes: for contiguous
  buffers of the same shape it is True exactly when the data are equal.
\<close>

lemma is_equal_to_rank1:
  assumes "length xs = n" "length ts = n"
  shows "is_equal_to (MiniBuffer_init xs [n] None) (MiniBuffer_init ts [n] None) = Inr (Some (xs = ts))"
proof -
  let ?x = "\<lparr>data = xs, shape = [n], strides = [1]\<rparr>"
  let ?t = "\<lparr>data = ts, shape = [n], strides = [1]\<rparr>"
  have loop: "compare_loop [0..<n] 0 (0, 0) ?x ?t = Inr (\<forall>i \<in> set [0..<n]. xs ! i = ts ! i)"
    by (rule compare_loop_all) (use assms in simp)
  have eq: "(\<forall>i \<in> set [0..<n]. xs ! i = ts ! i) = (xs = ts)"
  proof
    assume "\<forall>i \<in> set [0..<n]. xs ! i = ts ! i"
    then show "xs = ts" using assms by (intro nth_equalityI) auto
  next
    assume "xs = ts"
    then show "\<forall>i \<in> set [0..<n]. xs ! i = ts ! i" by simp
  qed
  have "is_equal_to ?x ?t = ebind (compare_buffers 0 (0, 0) ?x ?t) (\<lambda>b. Inr (Some b))"
    by (subst is_equal_to_def, subst traverse_dims_and_compare.simps) simp
  also have "compare_buffers 0 (0, 0) ?x ?t = compare_loop [0..<n] 0 (0, 0) ?x ?t"
    by (simp add: compare_buffers_def)
  finally have "is_equal_to ?x ?t = Inr (Some (xs = ts))"
    by (simp only: loop eq ebind_Inr)
  then show ?thesis
    by (simp add: MiniBuffer_init_def)
qed

text \<open>
  C5 (the code departs from the claim). For two equal 2 by 3 buffers \<open>is_equal_to\<close> does
  not return True: the first iteration over the leading axis raises TypeError.
\<close>

theorem is_equal_to_rank2_raises:
  "is_equal_to example_matrix example_matrix = Inl TypeError"
proof -
  have s: "shape example_matrix = [2, 3]" "strides example_matrix = [3, 1]"
    by (simp_all add: example_matrix_def MiniBuffer_init_def)
  have u: "[0..<2] = [0, 1::nat]"
    by (simp add: upt_rec)
  show ?thesis
    by (subst is_equal_to_def, subst traverse_dims_and_compare.simps)
       (simp add: s u tuple_add_int_def)
qed

lemma is_equal_to_rank2_general:
  assumes "2 \<le> length (shape x)" "0 < shape x ! 0" "strides x \<noteq> []"
  shows "is_equal_to x t = Inl TypeError"
proof -
  have "[0..<shape x ! 0] = 0 # [1..<shape x ! 0]"
    using assms(2) by (simp add: upt_rec)
  moreover have "0 < length (shape x)" "0 < length (strides x)"
    using assms by auto
  ultimately show ?thesis using assms(1)
    by (subst is_equal_to_def, subst traverse_dims_and_compare.simps)
       (simp add: tuple_add_int_def)
qed

section \<open>Expanding along an axis of size 1\<close>

lemma offset_update:
  assumes "axis < length k" "length k = length st"
  shows "offset k (st[axis := s]) = offset (k[axis := 0]) st + k ! axis * s"
  using assms
proof (induction k st arbitrary: axis rule: offset.induct)
  case (1 a k b st)
  then show ?case by (cases axis) simp_all
qed simp_all

lemma length_concat_replicate [simp]: "length (concat (replicate e xs)) = e * length xs"
  by (induction e) simp_all

lemma nth_concat_replicate:
  assumes "i < length xs" "j < e"
  shows "concat (replicate e xs) ! (i + j * length xs) = xs ! i"
  using assms
proof (induction e arbitrary: j)
  case 0
  then show ?case by simp
next
  case (Suc e)
  show ?case
  proof (cases j)
    case 0
    then show ?thesis using Suc.prems by (simp add: nth_append)
  next
    case (Suc j')
    then show ?thesis using Suc.prems Suc.IH[of j'] by (simp add: nth_append)
  qed
qed

lemma corrected_shape:
  "map (\<lambda>i. if i = axis then 1 else shp ! i) [0..<length shp] = shp[axis := 1]"
  by (rule nth_equalityI) (auto simp: nth_list_update)

lemma multi_indices_update:
  assumes "k \<in> set (multi_indices (shp[axis := e]))" "axis < length shp" "0 < shp ! axis"
  shows "k[axis := 0] \<in> set (multi_indices shp)" "k ! axis < e" "length k = length shp"
  using assms by (auto simp: multi_indices_iff nth_list_update split: if_splits)

lemma expand_result:
  assumes "readable b" "length (data b) = prod_list (shape b)"
    and "axis < length (shape b)" "shape b ! axis = 1"
  shows "expand b axis e =
           Inr \<lparr>data = map (\<lambda>k. element b (k[axis := 0])) (multi_indices ((shape b)[axis := e])),
                shape = (shape b)[axis := e],
                strides = get_strides_from_shape ((shape b)[axis := e])\<rparr>"
proof -
  let ?n = "prod_list ((shape b)[axis := 1])"
  let ?I = "\<lparr>data = concat (replicate e (data b)), shape = (shape b)[axis := e],
             strides = (strides b)[axis := ?n]\<rparr>"
  have n: "?n = length (data b)"
    using assms by (metis list_update_id)
  have ls: "length (strides b) = length (shape b)"
    using assms(1) by (simp add: readable_def)
  have el: "offset k (strides ?I) < length (data ?I) \<and> element ?I k = element b (k[axis := 0])"
    if "k \<in> set (multi_indices (shape ?I))" for k
  proof -
    from that have k: "k[axis := 0] \<in> set (multi_indices (shape b))" "k ! axis < e"
        "length k = length (shape b)"
      using multi_indices_update[of k "shape b" axis e] assms(3,4) by simp_all
    then have small: "offset (k[axis := 0]) (strides b) < length (data b)"
      using assms(1) by (simp add: readable_def)
    have off: "offset k (strides ?I) = offset (k[axis := 0]) (strides b) + k ! axis * length (data b)"
      using offset_update[of axis k "strides b" ?n] k(3) assms(3) ls n by simp
    have "offset (k[axis := 0]) (strides b) + k ! axis * length (data b) < e * length (data b)"
    proof -
      have "Suc (k ! axis) * length (data b) \<le> e * length (data b)"
        using k(2) by (intro mult_le_mono1) simp
      then show ?thesis using small by simp
    qed
    moreover have "concat (replicate e (data b)) ! (offset (k[axis := 0]) (strides b) + k ! axis * length (data b))
        = data b ! offset (k[axis := 0]) (strides b)"
      by (rule nth_concat_replicate[OF small k(2)])
    ultimately show ?thesis
      using off by (simp add: element_def)
  qed
  have r: "readable ?I"
    using assms(1,3) el ls by (auto simp: readable_def)
  have "expand b axis e = add ?I (full_like ?I 0)"
    using assms(3) ls by (simp add: expand_def corrected_shape MiniBuffer_init_def Let_def)
  also have "\<dots> = Inr \<lparr>data = map (element ?I) (multi_indices (shape ?I)), shape = shape ?I,
                strides = get_strides_from_shape (shape ?I)\<rparr>"
    by (rule add_zeros[OF r])
  also have "map (element ?I) (multi_indices (shape ?I)) =
             map (\<lambda>k. element b (k[axis := 0])) (multi_indices (shape ?I))"
    using el by (intro map_cong) auto
  finally show ?thesis by simp
qed

definition row_vector :: "real \<Rightarrow> real \<Rightarrow> real \<Rightarrow> real MiniBuffer" where
  "row_vector u v w = MiniBuffer_init [u, v, w] [1, 3] None"

definition column_vector :: "real \<Rightarrow> real \<Rightarrow> real \<Rightarrow> real MiniBuffer" where
  "column_vector u v w = MiniBuffer_init [u, v, w] [3, 1] None"

lemma upt_2: "[0..<2] = [0, 1]"
  by (simp add: upt_rec)

lemma upt_3: "[0..<3] = [0, 1, 2]"
  by (simp add: upt_rec)

lemma row_vector_readable: "readable (row_vector u v w)"
  by (rule contiguous_readable) (simp_all add: row_vector_def MiniBuffer_init_def contiguous_def)

lemma column_vector_readable: "readable (column_vector u v w)"
  by (rule contiguous_readable) (simp_all add: column_vector_def MiniBuffer_init_def contiguous_def)

lemma expand_row_vector:
  "expand (row_vector u v w) 0 2 = Inr (MiniBuffer_init [u, v, w, u, v, w] [2, 3] None)"
proof -
  have "expand (row_vector u v w) 0 2 =
      Inr \<lparr>data = map (\<lambda>k. element (row_vector u v w) (k[0 := 0]))
                       (multi_indices ((shape (row_vector u v w))[0 := 2])),
           shape = (shape (row_vector u v w))[0 := 2],
           strides = get_strides_from_shape ((shape (row_vector u v w))[0 := 2])\<rparr>"
    by (rule expand_result[OF row_vector_readable])
       (simp_all add: row_vector_def MiniBuffer_init_def)
  then show ?thesis
    by (simp add: row_vector_def MiniBuffer_init_def element_def upt_2 upt_3)
qed

lemma expand_column_vector:
  "expand (column_vector u v w) 1 2 = Inr (MiniBuffer_init [u, u, v, v, w, w] [3, 2] None)"
proof -
  have "expand (column_vector u v w) 1 2 =
      Inr \<lparr>data = map (\<lambda>k. element (column_vector u v w) (k[1 := 0]))
                       (multi_indices ((shape (column_vector u v w))[1 := 2])),
           shape = (shape (column_vector u v w))[1 := 2],
           strides = get_strides_from_shape ((shape (column_vector u v w))[1 := 2])\<rparr>"
    by (rule expand_result[OF column_vector_readable])
       (simp_all add: column_vector_def MiniBuffer_init_def)
  then show ?thesis
    by (simp add: column_vector_def MiniBuffer_init_def element_def upt_2 upt_3)
qed

text \<open>
  C6. Let \<open>b\<close> be a buffer that can be read by its strides, with as many elements as
  its shape says and size 1 at \<open>axis\<close>. Then \<open>expand b axis e\<close> succeeds, and its result is
  what reading the intermediate buffer by its strides gives, where the intermediate
  buffer has the data repeated \<open>e\<close> times and the stride at \<open>axis\<close> replaced by the product
  of the sizes of the shape with 1 at \<open>axis\<close>. The result has size \<open>e\<close> at \<open>axis\<close>, is
  contiguous, and holds at every multi-index the element that the input holds at the
  same multi-index with 0 at \<open>axis\<close>. In particular the flat data \<open>u, v, w\<close> expands from
  shape (1, 3) to \<open>u, v, w, u, v, w\<close> and from shape (3, 1) to \<open>u, u, v, v, w, w\<close>: six
  elements each, in two arrangements that coincide only when \<open>u = v = w\<close>.
\<close>

theorem expand_size_one_axis:
  assumes "readable b" "length (data b) = prod_list (shape b)"
    and "axis < length (shape b)" "shape b ! axis = 1"
  shows "\<exists>r. expand b axis e = Inr r \<and>
           (let repeated = \<lparr>data = concat (replicate e (data b)),
                              shape = (shape b)[axis := e],
                              strides = (strides b)[axis := prod_list ((shape b)[axis := 1])]\<rparr>
            in readable repeated \<and> add repeated (full_like repeated 0) = Inr r \<and>
               data r = map (element repeated) (multi_indices (shape repeated))) \<and>
           shape r = (shape b)[axis := e] \<and> contiguous r \<and>
           (\<forall>k \<in> set (multi_indices (shape r)). element r k = element b (k[axis := 0])) \<and>
           expand (row_vector u v w) 0 2 = Inr (MiniBuffer_init [u, v, w, u, v, w] [2, 3] None) \<and>
           expand (column_vector u v w) 1 2 = Inr (MiniBuffer_init [u, u, v, v, w, w] [3, 2] None) \<and>
           ([u, v, w, u, v, w] = [u, u, v, v, w, w] \<longleftrightarrow> u = v \<and> v = w)"
proof -
  let ?shp = "(shape b)[axis := e]"
  let ?r = "\<lparr>data = map (\<lambda>k. element b (k[axis := 0])) (multi_indices ?shp),
             shape = ?shp, strides = get_strides_from_shape ?shp\<rparr>"
  let ?I = "\<lparr>data = concat (replicate e (data b)), shape = ?shp,
             strides = (strides b)[axis := prod_list ((shape b)[axis := 1])]\<rparr>"
  have res: "expand b axis e = Inr ?r"
    by (rule expand_result[OF assms])
  have ls: "length (strides b) = length (shape b)"
    using assms(1) by (simp add: readable_def)
  have unfolded: "expand b axis e = add ?I (full_like ?I 0)"
    using assms(3) ls by (simp add: expand_def corrected_shape MiniBuffer_init_def Let_def)
  have I: "readable ?I"
  proof (rule ccontr)
    assume n: "\<not> readable ?I"
    have "shape ?I \<noteq> []" "length (strides ?I) = length (shape ?I)"
      using assms(3) ls by auto
    with n obtain k where k: "k \<in> set (multi_indices ?shp)"
      "\<not> offset k (strides ?I) < length (data ?I)"
      by (auto simp: readable_def)
    have k0: "k[axis := 0] \<in> set (multi_indices (shape b))" "k ! axis < e" "length k = length (shape b)"
      using multi_indices_update[OF k(1)] assms(3,4) by simp_all
    have "offset k (strides ?I) = offset (k[axis := 0]) (strides b) + k ! axis * length (data b)"
      using offset_update[of axis k "strides b" "prod_list ((shape b)[axis := 1])"] k0(3) assms ls
      by (simp add: list_update_id[of "shape b" axis, simplified])
         (metis list_update_id)
    moreover have "offset (k[axis := 0]) (strides b) < length (data b)"
      using assms(1) k0(1) by (simp add: readable_def)
    moreover have "Suc (k ! axis) * length (data b) \<le> e * length (data b)"
      using k0(2) by (intro mult_le_mono1) simp
    ultimately show False using k(2) by simp
  qed
  have d: "data ?r = map (element ?I) (multi_indices (shape ?I))"
    using add_zeros[OF I] res unfolded by simp
  have c: "contiguous ?r" by (rule materialised_contiguous)
  have e: "element ?r k = element b (k[axis := 0])" if "k \<in> set (multi_indices (shape ?r))" for k
    using element_materialised[of k ?shp "\<lambda>k. element b (k[axis := 0])"] that by simp
  have "[u, v, w, u, v, w] = [u, u, v, v, w, w] \<longleftrightarrow> u = v \<and> v = w"
    by auto
  with res unfolded I d c e expand_row_vector expand_column_vector show ?thesis
    by (simp add: Let_def)
qed

theorem expand_size_one_axis_witness:
  "readable (row_vector 1 2 3) \<and>
   length (data (row_vector 1 2 3)) = prod_list (shape (row_vector 1 2 3)) \<and>
   0 < length (shape (row_vector 1 2 3)) \<and> shape (row_vector 1 2 3) ! 0 = 1 \<and>
   expand (row_vector 1 2 3) 0 2 = Inr (MiniBuffer_init [1, 2, 3, 1, 2, 3] [2, 3] None) \<and>
   expand (column_vector 1 2 3) 1 2 = Inr (MiniBuffer_init [1, 1, 2, 2, 3, 3] [3, 2] None)"
proof -
  have h: "length (data (row_vector 1 2 3)) = prod_list (shape (row_vector 1 2 3))"
    "0 < length (shape (row_vector 1 2 3))" "shape (row_vector 1 2 3) ! 0 = 1"
    by (simp_all add: row_vector_def MiniBuffer_init_def)
  from expand_size_one_axis[OF row_vector_readable h, of 2 1 2 3] h row_vector_readable
  show ?thesis by blast
qed

section \<open>Summing along an axis\<close>

lemma foldl_add_sum_list: "foldl (+) a xs = a + sum_list xs" for a :: real
  by (induction xs arbitrary: a) simp_all

lemma traverse_sum_reads:
  assumes "d < length (shape x)"
    and "length (shape x) \<le> length (strides x)"
    and "\<And>k. k \<in> set (multi_indices (drop d (shape x))) \<Longrightarrow>
           p + offset k (drop d (strides x)) < length (data x)"
  shows "traverse_dims_and_sum_along_last d p x =
           Inr (map (\<lambda>k. sum_list (map (\<lambda>j. data x ! (p + offset (k @ [j]) (drop d (strides x))))
                                        [0..<last (shape x)]))
                    (multi_indices (butlast (drop d (shape x)))))"
  using assms
proof (induction d p x rule: traverse_dims_and_sum_along_last.induct)
  case (1 d p x)
  let ?n = "shape x ! d"
  let ?sx = "strides x ! d"
  have dx: "drop d (strides x) = ?sx # drop (Suc d) (strides x)"
    using 1 by (simp add: Cons_nth_drop_Suc)
  have ds: "drop d (shape x) = ?n # drop (Suc d) (shape x)"
    using 1 by (simp add: Cons_nth_drop_Suc)
  show ?case
  proof (cases "Suc d = length (shape x)")
    case True
    then have ds1: "drop d (shape x) = [?n]" using ds by simp
    have lst: "last (shape x) = ?n"
      using True by (metis ds1 last_drop last_snoc append_Nil "1.prems"(1))
    have rd: "p + i * ?sx < length (data x)" if "i < ?n" for i
    proof -
      from that have "[i] \<in> set (multi_indices (drop d (shape x)))"
        by (simp add: ds1 multi_indices_single)
      from "1.prems"(3)[OF this] show ?thesis by (simp add: dx)
    qed
    have "for_extend [0..<?n] (\<lambda>val_idx.
                 ebind (list_get (strides x) d) (\<lambda>sx.
                 ebind (list_get (data x) (p + val_idx * sx)) (\<lambda>v. Inr [v])))
         = Inr (concat (map (\<lambda>i. [data x ! (p + i * ?sx)]) [0..<?n]))"
      using "1.prems"(1,2) rd by (intro for_extend_Inr) simp
    then have "traverse_dims_and_sum_along_last d p x =
        Inr [foldl (+) 0 (map (\<lambda>i. data x ! (p + i * ?sx)) [0..<?n])]"
      using True "1.prems"(1)
      by (subst traverse_dims_and_sum_along_last.simps) simp
    then show ?thesis
      by (simp add: ds1 dx lst foldl_add_sum_list)
  next
    case False
    have IH: "traverse_dims_and_sum_along_last (Suc d) (p + i * ?sx) x =
        Inr (map (\<lambda>k. sum_list (map (\<lambda>j. data x ! (p + offset ((i # k) @ [j]) (drop d (strides x))))
                                        [0..<last (shape x)]))
                    (multi_indices (butlast (drop (Suc d) (shape x)))))" if i: "i < ?n" for i
    proof -
      have rd: "p + i * ?sx + offset k (drop (d + 1) (strides x)) < length (data x)"
        if "k \<in> set (multi_indices (drop (d + 1) (shape x)))" for k
      proof -
        from that have "i # k \<in> set (multi_indices (drop d (shape x)))"
          using i by (auto simp: ds)
        from "1.prems"(3)[OF this] show ?thesis
          by (simp add: dx add.assoc)
      qed
      have "traverse_dims_and_sum_along_last (d + 1) (p + i * ?sx) x =
        Inr (map (\<lambda>k. sum_list (map (\<lambda>j. data x ! (p + i * ?sx + offset (k @ [j]) (drop (d + 1) (strides x))))
                                        [0..<last (shape x)]))
                    (multi_indices (butlast (drop (d + 1) (shape x)))))"
        using False i "1.prems"(1,2) rd
        by (intro "1.IH") auto
      then show ?thesis by (simp add: dx add.assoc)
    qed
    have ne: "drop (Suc d) (shape x) \<noteq> []"
      using False "1.prems"(1) by simp
    have "traverse_dims_and_sum_along_last d p x =
        for_extend [0..<?n] (\<lambda>i. traverse_dims_and_sum_along_last (Suc d) (p + i * ?sx) x)"
      using False "1.prems"(1,2)
      by (subst traverse_dims_and_sum_along_last.simps) (auto intro!: for_extend_cong)
    also have "\<dots> = Inr (concat (map (\<lambda>i. map (\<lambda>k. sum_list (map (\<lambda>j. data x ! (p + offset ((i # k) @ [j]) (drop d (strides x))))
                                        [0..<last (shape x)]))
                    (multi_indices (butlast (drop (Suc d) (shape x))))) [0..<?n]))"
      by (rule for_extend_Inr) (simp add: IH)
    also have "\<dots> = Inr (map (\<lambda>k. sum_list (map (\<lambda>j. data x ! (p + offset (k @ [j]) (drop d (strides x))))
                                        [0..<last (shape x)]))
                    (concat (map (\<lambda>i. map ((#) i) (multi_indices (butlast (drop (Suc d) (shape x))))) [0..<?n])))"
      by (simp only: concat_map_map[of "\<lambda>k. sum_list (map (\<lambda>j. data x ! (p + offset (k @ [j]) (drop d (strides x))))
                                        [0..<last (shape x)])"])
    finally show ?thesis
      using ne by (simp add: ds)
  qed
qed

text \<open>The list that the exchange of the entries at \<open>axis\<close> and at the last position gives.\<close>

definition swapped :: "'a list \<Rightarrow> nat \<Rightarrow> 'a list" where
  "swapped xs axis = (xs[axis := last xs])[length xs - 1 := xs ! axis]"

lemma swap_with_last_swapped:
  "axis < length xs \<Longrightarrow> swap_with_last xs axis = Inr (swapped xs axis)"
  by (auto simp: swap_with_last_def swapped_def)

lemma length_swapped [simp]: "length (swapped xs axis) = length xs"
  by (simp add: swapped_def)

lemma swapped_nth:
  assumes "axis < length xs" "i < length xs"
  shows "swapped xs axis ! i =
           (if i = length xs - 1 then xs ! axis else if i = axis then xs ! (length xs - 1) else xs ! i)"
proof -
  have "xs \<noteq> []" using assms by auto
  then have "last xs = xs ! (length xs - 1)" by (rule last_conv_nth)
  then show ?thesis using assms by (auto simp: swapped_def nth_list_update)
qed

lemma swapped_swapped:
  assumes "axis < length xs"
  shows "swapped (swapped xs axis) axis = xs"
  by (rule nth_equalityI) (use assms in \<open>auto simp: swapped_nth\<close>)

lemma swapped_map_nth:
  assumes "axis < length xs"
  shows "map ((!) xs) (swapped [0..<length xs] axis) = swapped xs axis"
  by (rule nth_equalityI) (use assms in \<open>auto simp: swapped_nth\<close>)

lemma offset_zero_at:
  assumes "i < length k" "length k = length st" "k ! i = 0"
  shows "offset k (st[i := s]) = offset k st"
  using offset_update[OF assms(1,2), of s] assms(3) by (simp add: list_update_id[of k i, simplified assms(3)])

lemma offset_split:
  assumes "i < length k" "length k = length st"
  shows "offset k st = offset (k[i := 0]) st + k ! i * st ! i"
  using offset_update[OF assms, of "st ! i"] by simp

lemma offset_swapped:
  assumes "axis < length k" "length k = length st"
  shows "offset (swapped k axis) (swapped st axis) = offset k st"
proof (cases "axis = length k - 1")
  case True
  then have "swapped k axis = k" "swapped st axis = st"
    using assms by (auto simp: swapped_def last_conv_nth list_update_same_conv)
  then show ?thesis by simp
next
  case False
  let ?l = "length k - 1"
  let ?k' = "swapped k axis" and ?st' = "swapped st axis"
  have l: "?l < length k" "axis \<noteq> ?l" using assms False by auto
  let ?z = "k[axis := 0, ?l := 0]"
  have z': "?k'[axis := 0, ?l := 0] = ?z"
    by (rule nth_equalityI) (use assms l in \<open>auto simp: swapped_nth nth_list_update\<close>)
  have "offset ?k' ?st' = offset (?k'[axis := 0]) ?st' + ?k' ! axis * ?st' ! axis"
    using assms by (intro offset_split) simp_all
  also have "offset (?k'[axis := 0]) ?st' =
             offset (?k'[axis := 0, ?l := 0]) ?st' + (?k'[axis := 0]) ! ?l * ?st' ! ?l"
    using assms l by (intro offset_split) simp_all
  also have "offset (?k'[axis := 0, ?l := 0]) ?st' = offset ?z ?st'"
    by (simp only: z')
  also have "offset ?z ?st' = offset ?z (st[axis := last st])"
    unfolding swapped_def using assms l by (intro offset_zero_at) simp_all
  also have "\<dots> = offset ?z st"
    using assms l by (intro offset_zero_at) (simp_all add: nth_list_update)
  finally have lhs: "offset ?k' ?st' = offset ?z st + k ! axis * st ! axis + k ! ?l * st ! ?l"
    using assms l by (simp add: swapped_nth nth_list_update)
  have "offset k st = offset (k[axis := 0]) st + k ! axis * st ! axis"
    using assms by (intro offset_split) simp_all
  also have "offset (k[axis := 0]) st = offset ?z st + (k[axis := 0]) ! ?l * st ! ?l"
    using assms l by (intro offset_split) simp_all
  finally have "offset k st = offset ?z st + k ! ?l * st ! ?l + k ! axis * st ! axis"
    using l by (simp add: nth_list_update)
  with lhs show ?thesis by simp
qed

lemma multi_indices_swapped:
  assumes "axis < length shp"
  shows "k \<in> set (multi_indices (swapped shp axis)) \<longleftrightarrow> swapped k axis \<in> set (multi_indices shp)"
proof -
  have "(\<forall>i<length shp. k ! i < swapped shp axis ! i) \<longleftrightarrow>
        (\<forall>i<length shp. swapped k axis ! i < shp ! i)" if len: "length k = length shp"
  proof
    assume a: "\<forall>i<length shp. k ! i < swapped shp axis ! i"
    show "\<forall>i<length shp. swapped k axis ! i < shp ! i"
    proof (intro allI impI)
      fix i assume i: "i < length shp"
      have "length shp - 1 < length shp" using assms by simp
      then show "swapped k axis ! i < shp ! i"
        using a[rule_format, of i] a[rule_format, of axis] a[rule_format, of "length shp - 1"]
          i assms len
        by (auto simp: swapped_nth split: if_splits)
    qed
  next
    assume a: "\<forall>i<length shp. swapped k axis ! i < shp ! i"
    show "\<forall>i<length shp. k ! i < swapped shp axis ! i"
    proof (intro allI impI)
      fix i assume i: "i < length shp"
      have "length shp - 1 < length shp" using assms by simp
      then show "k ! i < swapped shp axis ! i"
        using a[rule_format, of i] a[rule_format, of axis] a[rule_format, of "length shp - 1"]
          i assms len
        by (auto simp: swapped_nth split: if_splits)
    qed
  qed
  then show ?thesis by (auto simp: multi_indices_iff)
qed

lemma permute_swapped:
  fixes b :: "real MiniBuffer"
  assumes "readable b" "axis < length (shape b)"
  shows "permute b (swapped [0..<length (shape b)] axis) =
           Inr \<lparr>data = map (\<lambda>k. element b (swapped k axis)) (multi_indices (swapped (shape b) axis)),
                shape = swapped (shape b) axis,
                strides = get_strides_from_shape (swapped (shape b) axis)\<rparr>"
proof -
  let ?order = "swapped [0..<length (shape b)] axis"
  let ?I = "\<lparr>data = data b, shape = swapped (shape b) axis, strides = swapped (strides b) axis\<rparr>"
  have ls: "length (strides b) = length (shape b)" using assms(1) by (simp add: readable_def)
  have "i < length (shape b)" if "i \<in> set ?order" for i
  proof -
    from that obtain j where "j < length (shape b)" "i = ?order ! j"
      by (auto simp: in_set_conv_nth)
    then show ?thesis using assms(2) by (auto simp: swapped_nth)
  qed
  then have "permute_dims b ?order = Inr (map ((!) (shape b)) ?order, map ((!) (strides b)) ?order)"
    using ls by (intro permute_dims_map) simp
  then have pd: "permute_dims b ?order = Inr (swapped (shape b) axis, swapped (strides b) axis)"
    using swapped_map_nth[of axis "shape b"] swapped_map_nth[of axis "strides b"] assms(2) ls
    by simp
  have el: "offset k (strides ?I) < length (data ?I) \<and> element ?I k = element b (swapped k axis)"
    if "k \<in> set (multi_indices (shape ?I))" for k
  proof -
    from that have m: "swapped k axis \<in> set (multi_indices (shape b))"
      using multi_indices_swapped[OF assms(2), of k] by simp
    then have len: "length k = length (shape b)" by (simp add: multi_indices_iff)
    have "offset (swapped (swapped k axis) axis) (swapped (strides b) axis) = offset (swapped k axis) (strides b)"
      using assms(2) len ls by (intro offset_swapped) simp_all
    then have "offset k (swapped (strides b) axis) = offset (swapped k axis) (strides b)"
      using swapped_swapped[of axis k] assms(2) len by simp
    moreover have "offset (swapped k axis) (strides b) < length (data b)"
      using assms(1) m by (simp add: readable_def)
    ultimately show ?thesis by (simp add: element_def)
  qed
  have r: "readable ?I"
    using assms el ls by (auto simp: readable_def swapped_def)
  have "permute b ?order = add ?I (full_like ?I 0)"
    using pd by (simp add: permute_def MiniBuffer_init_def Let_def)
  also have "\<dots> = Inr \<lparr>data = map (element ?I) (multi_indices (shape ?I)), shape = shape ?I,
                strides = get_strides_from_shape (shape ?I)\<rparr>"
    by (rule add_zeros[OF r])
  also have "map (element ?I) (multi_indices (shape ?I)) =
             map (\<lambda>k. element b (swapped k axis)) (multi_indices (shape ?I))"
    using el by (intro map_cong) auto
  finally show ?thesis by simp
qed

lemma multi_indices_snoc:
  assumes "k \<in> set (multi_indices (butlast shp))" "j < last shp" "shp \<noteq> []"
  shows "k @ [j] \<in> set (multi_indices shp)"
proof -
  have s: "shp = butlast shp @ [last shp]" using assms(3) by simp
  have "k @ [j] \<in> set (multi_indices (butlast shp @ [last shp]))"
    using assms(1,2) unfolding multi_indices_iff
    by (auto simp: nth_append less_Suc_eq)
  then show ?thesis using s by simp
qed

lemma multi_indices_snoc_one:
  "multi_indices (s @ [1]) = map (\<lambda>k. k @ [0]) (multi_indices s)"
proof (induction s)
  case Nil
  then show ?case by simp
next
  case (Cons n s)
  have "map (\<lambda>i. map ((#) i) (map (\<lambda>k. k @ [0]) (multi_indices s))) [0..<n]
      = map (\<lambda>i. map (\<lambda>k. k @ [0]) (map ((#) i) (multi_indices s))) [0..<n]"
    by simp
  then show ?case using Cons by (simp add: map_concat comp_def)
qed

lemma sum_materialised:
  assumes "shp \<noteq> []"
  shows "traverse_dims_and_sum_along_last 0 0
           \<lparr>data = map F (multi_indices shp), shape = shp, strides = get_strides_from_shape shp\<rparr> =
         Inr (map (\<lambda>k. sum_list (map (\<lambda>j. F (k @ [j])) [0..<last shp]))
                  (multi_indices (butlast shp)))"
proof -
  let ?x = "\<lparr>data = map F (multi_indices shp), shape = shp, strides = get_strides_from_shape shp\<rparr>"
  have rd: "0 + offset k (drop 0 (strides ?x)) < length (data ?x)"
    if "k \<in> set (multi_indices (drop 0 (shape ?x)))" for k
    using that offset_contiguous_less[of k shp] by simp
  have "traverse_dims_and_sum_along_last 0 0 ?x =
          Inr (map (\<lambda>k. sum_list (map (\<lambda>j. data ?x ! (0 + offset (k @ [j]) (drop 0 (strides ?x))))
                                        [0..<last (shape ?x)]))
                   (multi_indices (butlast (drop 0 (shape ?x)))))"
    using assms rd by (intro traverse_sum_reads) simp_all
  also have "map (\<lambda>k. sum_list (map (\<lambda>j. data ?x ! (0 + offset (k @ [j]) (drop 0 (strides ?x))))
                                        [0..<last (shape ?x)]))
                   (multi_indices (butlast (drop 0 (shape ?x))))
           = map (\<lambda>k. sum_list (map (\<lambda>j. F (k @ [j])) [0..<last shp])) (multi_indices (butlast shp))"
  proof (rule map_cong)
    fix k assume k: "k \<in> set (multi_indices (butlast shp))"
    have "data ?x ! (0 + offset (k @ [j]) (drop 0 (strides ?x))) = F (k @ [j])"
      if "j \<in> set [0..<last (shape ?x)]" for j
    proof -
      from that k have "k @ [j] \<in> set (multi_indices shp)"
        using assms by (intro multi_indices_snoc) simp_all
      from element_materialised[OF this, of F] show ?thesis by (simp add: element_def)
    qed
    then show "sum_list (map (\<lambda>j. data ?x ! (0 + offset (k @ [j]) (drop 0 (strides ?x)))) [0..<last (shape ?x)])
             = sum_list (map (\<lambda>j. F (k @ [j])) [0..<last shp])"
      by (intro arg_cong[where f = sum_list] map_cong) simp_all
  qed simp
  finally show ?thesis .
qed

lemma swapped_butlast_snoc:
  assumes "axis < length k"
  shows "swapped (butlast (swapped k axis) @ [j]) axis = k[axis := j]"
proof (rule nth_equalityI)
  show "length (swapped (butlast (swapped k axis) @ [j]) axis) = length (k[axis := j])"
    using assms by simp
next
  fix i assume "i < length (swapped (butlast (swapped k axis) @ [j]) axis)"
  then have i: "i < length k" using assms by simp
  let ?m = "butlast (swapped k axis) @ [j]"
  have lm: "length ?m = length k" using assms by simp
  have m: "?m ! t = (if t = length k - 1 then j else swapped k axis ! t)" if "t < length k" for t
    using that assms by (auto simp: nth_append nth_butlast)
  have "length k - 1 < length k" using assms by simp
  then show "swapped ?m axis ! i = k[axis := j] ! i"
    using i assms lm m[of axis] m[of "length k - 1"] m[of i]
    by (auto simp: swapped_nth[of axis ?m i] swapped_nth[of axis k] nth_list_update)
qed

lemma out_shape_swapped:
  assumes "axis < length S"
  shows "swapped (S[axis := 1]) axis = butlast (swapped S axis) @ [1]"
proof (rule nth_equalityI)
  show "length (swapped (S[axis := 1]) axis) = length (butlast (swapped S axis) @ [1])"
    using assms by simp
next
  fix i assume "i < length (swapped (S[axis := 1]) axis)"
  then have i: "i < length S" by simp
  have l: "length S - 1 < length S" using assms by simp
  show "swapped (S[axis := 1]) axis ! i = (butlast (swapped S axis) @ [1]) ! i"
    using i assms l
    by (auto simp: swapped_nth[of axis "S[axis := 1]"] swapped_nth[of axis S] nth_append
        nth_butlast nth_list_update)
qed

lemma sum_axis_result:
  assumes "readable b" "axis < length (shape b)"
  shows "\<exists>x1 run_sums x3.
           permute b (swapped [0..<length (shape b)] axis) = Inr x1 \<and>
           contiguous x1 \<and> shape x1 = swapped (shape b) axis \<and>
           traverse_dims_and_sum_along_last 0 0 x1 = Inr run_sums \<and>
           permute (MiniBuffer_init run_sums (swapped ((shape b)[axis := 1]) axis) None)
             (swapped [0..<length (shape b)] axis) = Inr x3 \<and>
           add x3 (full_like x3 0) = Inr x3 \<and>
           sum_axis b axis = Inr x3 \<and>
           x3 = \<lparr>data = map (\<lambda>k. sum_list (map (\<lambda>j. element b (k[axis := j])) [0..<shape b ! axis]))
                           (multi_indices ((shape b)[axis := 1])),
                   shape = (shape b)[axis := 1],
                   strides = get_strides_from_shape ((shape b)[axis := 1])\<rparr>"
proof -
  let ?S = "shape b"
  let ?order = "swapped [0..<length ?S] axis"
  let ?S1 = "swapped ?S axis"
  let ?S2 = "swapped (?S[axis := 1]) axis"
  let ?T = "?S[axis := 1]"
  let ?F = "\<lambda>k. element b (swapped k axis)"
  let ?G = "\<lambda>k. sum_list (map (\<lambda>j. ?F (k @ [j])) [0..<last ?S1])"
  let ?G' = "\<lambda>k. ?G (butlast k)"
  let ?x1 = "\<lparr>data = map ?F (multi_indices ?S1), shape = ?S1, strides = get_strides_from_shape ?S1\<rparr>"
  let ?x2 = "\<lparr>data = map ?G' (multi_indices ?S2), shape = ?S2, strides = get_strides_from_shape ?S2\<rparr>"
  let ?H = "\<lambda>k. element ?x2 (swapped k axis)"
  let ?x3 = "\<lparr>data = map ?H (multi_indices ?T), shape = ?T, strides = get_strides_from_shape ?T\<rparr>"
  have ne: "?S \<noteq> []" "?S1 \<noteq> []" "?S2 \<noteq> []" "?T \<noteq> []"
    using assms(2) by (auto simp: swapped_def)
  have o1: "swap_with_last [0..<length ?S] axis = Inr ?order"
    using assms(2) by (intro swap_with_last_swapped) simp
  have o2: "swap_with_last (map (\<lambda>dim_idx. if dim_idx = axis then 1 else ?S ! dim_idx) [0..<length ?S]) axis
            = Inr ?S2"
    using assms(2) by (simp add: corrected_shape swap_with_last_swapped)
  have p1: "permute b ?order = Inr ?x1"
    by (rule permute_swapped[OF assms])
  have s1: "traverse_dims_and_sum_along_last 0 0 ?x1 = Inr (map ?G (multi_indices (butlast ?S1)))"
    by (rule sum_materialised[OF ne(2)])
  have S2: "?S2 = butlast ?S1 @ [1]"
    by (rule out_shape_swapped[OF assms(2)])
  have mi2: "multi_indices ?S2 = map (\<lambda>k. k @ [0]) (multi_indices (butlast ?S1))"
    by (simp only: S2 multi_indices_snoc_one)
  have d2: "map ?G (multi_indices (butlast ?S1)) = map ?G' (multi_indices ?S2)"
    by (simp only: mi2 map_map comp_def butlast_snoc)
  have x2: "MiniBuffer_init (map ?G (multi_indices (butlast ?S1))) ?S2 None = ?x2"
    by (simp only: d2 MiniBuffer_init_def option.case)
  have r2: "readable ?x2"
    using ne(3) by (intro contiguous_readable materialised_contiguous) simp
  have T: "swapped ?S2 axis = ?T"
    using assms(2) by (intro swapped_swapped) simp
  have "permute ?x2 (swapped [0..<length (shape ?x2)] axis) =
           Inr \<lparr>data = map (\<lambda>k. element ?x2 (swapped k axis)) (multi_indices (swapped (shape ?x2) axis)),
                shape = swapped (shape ?x2) axis,
                strides = get_strides_from_shape (swapped (shape ?x2) axis)\<rparr>"
    using assms(2) by (intro permute_swapped[OF r2]) simp
  then have p2: "permute ?x2 ?order = Inr ?x3"
    using T by simp
  have c3: "contiguous ?x3" by (rule materialised_contiguous)
  have a3: "add ?x3 (full_like ?x3 0) = Inr ?x3"
    using ne(4) by (intro add_zeros_contiguous[OF c3]) simp
  have result: "sum_axis b axis = Inr ?x3"
    unfolding sum_axis_def Let_def
    by (simp only: o1 o2 p1 s1 x2 p2 a3 ebind_Inr)
  have lastS1: "last ?S1 = ?S ! axis"
  proof -
    have "last ?S1 = ?S1 ! (length ?S1 - 1)" using ne(2) by (rule last_conv_nth)
    then show ?thesis using assms(2) by (simp add: swapped_nth)
  qed
  have "map ?H (multi_indices ?T) =
        map (\<lambda>k. sum_list (map (\<lambda>j. element b (k[axis := j])) [0..<?S ! axis])) (multi_indices ?T)"
  proof (rule map_cong[OF refl])
    fix k assume k: "k \<in> set (multi_indices ?T)"
    then have len: "length k = length ?S" by (simp add: multi_indices_iff)
    have "k \<in> set (multi_indices (swapped ?S2 axis))" using k T by simp
    then have m: "swapped k axis \<in> set (multi_indices ?S2)"
      using multi_indices_swapped[of axis ?S2 k] assms(2) by simp
    have "?H k = ?G' (swapped k axis)"
      using element_materialised[OF m, of ?G'] by simp
    also have "\<dots> = sum_list (map (\<lambda>j. element b (swapped (butlast (swapped k axis) @ [j]) axis)) [0..<?S ! axis])"
      by (simp only: lastS1)
    also have "\<dots> = sum_list (map (\<lambda>j. element b (k[axis := j])) [0..<?S ! axis])"
      using swapped_butlast_snoc[of axis k] assms(2) len by simp
    finally show "?H k = sum_list (map (\<lambda>j. element b (k[axis := j])) [0..<?S ! axis])" .
  qed
  then have "?x3 = \<lparr>data = map (\<lambda>k. sum_list (map (\<lambda>j. element b (k[axis := j])) [0..<?S ! axis]))
                           (multi_indices ?T),
                   shape = ?T, strides = get_strides_from_shape ?T\<rparr>"
    by simp
  moreover have "contiguous ?x1" by (rule materialised_contiguous)
  moreover have "permute (MiniBuffer_init (map ?G (multi_indices (butlast ?S1))) ?S2 None) ?order = Inr ?x3"
    using p2 by (simp only: x2)
  moreover have "shape ?x1 = ?S1" by simp
  ultimately show ?thesis
    using p1 s1 a3 result by blast
qed

lemma fill_contiguous: "contiguous (fill shp v)"
  by (simp add: fill_def MiniBuffer_init_def contiguous_def)

lemma element_fill:
  assumes "k \<in> set (multi_indices shp)"
  shows "element (fill shp v) k = v"
  using offset_contiguous_less[OF assms]
  by (simp add: element_def fill_def MiniBuffer_init_def)

lemma sum_all_ones: "sum_axis (fill [m, n] 1) 0 = Inr (fill [1, n] (real m))"
proof -
  let ?b = "fill [m, n] (1 :: real)"
  have sh: "shape ?b = [m, n]" by (simp add: fill_def MiniBuffer_init_def)
  have rd: "readable ?b"
    by (rule contiguous_readable[OF fill_contiguous]) (simp add: sh)
  have "sum_axis ?b 0 =
      Inr \<lparr>data = map (\<lambda>k. sum_list (map (\<lambda>j. element ?b (k[0 := j])) [0..<shape ?b ! 0]))
                           (multi_indices ((shape ?b)[0 := 1])),
                   shape = (shape ?b)[0 := 1],
                   strides = get_strides_from_shape ((shape ?b)[0 := 1])\<rparr>"
    using sum_axis_result[OF rd, of 0] by (auto simp: sh)
  also have "map (\<lambda>k. sum_list (map (\<lambda>j. element ?b (k[0 := j])) [0..<shape ?b ! 0]))
                 (multi_indices ((shape ?b)[0 := 1]))
           = map (\<lambda>k. real m) (multi_indices ((shape ?b)[0 := 1]))"
  proof (rule map_cong[OF refl])
    fix k assume k: "k \<in> set (multi_indices ((shape ?b)[0 := 1]))"
    have "element ?b (k[0 := j]) = 1" if "j \<in> set [0..<shape ?b ! 0]" for j
    proof -
      have "k[0 := j] \<in> set (multi_indices [m, n])"
        using that k unfolding multi_indices_iff sh
        by (auto simp: nth_list_update less_Suc_eq numeral_2_eq_2)
      then show ?thesis by (rule element_fill)
    qed
    then have "map (\<lambda>j. element ?b (k[0 := j])) [0..<shape ?b ! 0] = map (\<lambda>j. 1) [0..<shape ?b ! 0]"
      by (intro map_cong) simp_all
    then have "sum_list (map (\<lambda>j. element ?b (k[0 := j])) [0..<shape ?b ! 0])
             = sum_list (map (\<lambda>j. 1) [0..<shape ?b ! 0])"
      by (simp only:)
    also have "\<dots> = real m"
      by (simp add: sh sum_list_triv)
    finally show "sum_list (map (\<lambda>j. element ?b (k[0 := j])) [0..<shape ?b ! 0]) = real m" .
  qed
  also have "\<dots> = replicate (prod_list ((shape ?b)[0 := 1])) (real m)"
    by (simp add: map_replicate_const)
  finally show ?thesis
    by (simp add: sh fill_def MiniBuffer_init_def)
qed

text \<open>
  C7. For every contiguous buffer and every axis below its rank, \<open>sum_axis\<close> succeeds
  through its four stages: the permutation that exchanges the axis with the last one
  gives a contiguous buffer; the sums of its runs along the last axis are taken; the
  buffer of these sums is permuted by the same exchange; adding zeros returns that
  buffer, which is the result. The result is contiguous, has the input's shape with 1 at
  the axis, and holds at every multi-index the sum of the input's elements along the
  axis. For the buffer of ones of shape (m, n), summing along axis 0 gives the buffer of
  shape (1, n) filled with m.
\<close>

theorem sum_along_axis:
  assumes "contiguous b" "axis < length (shape b)"
  shows "\<exists>r. sum_axis b axis = Inr r \<and>
           (\<exists>x1 run_sums x3.
              permute b (swapped [0..<length (shape b)] axis) = Inr x1 \<and>
              contiguous x1 \<and> shape x1 = swapped (shape b) axis \<and>
              traverse_dims_and_sum_along_last 0 0 x1 = Inr run_sums \<and>
              permute (MiniBuffer_init run_sums (swapped ((shape b)[axis := 1]) axis) None)
                (swapped [0..<length (shape b)] axis) = Inr x3 \<and>
              add x3 (full_like x3 0) = Inr r) \<and>
           shape r = (shape b)[axis := 1] \<and> contiguous r \<and>
           (\<forall>k \<in> set (multi_indices (shape r)).
              element r k = sum_list (map (\<lambda>j. element b (k[axis := j])) [0..<shape b ! axis])) \<and>
           sum_axis (fill [m, n] 1) 0 = Inr (fill [1, n] (real m))"
proof -
  let ?T = "(shape b)[axis := 1]"
  let ?f = "\<lambda>k. sum_list (map (\<lambda>j. element b (k[axis := j])) [0..<shape b ! axis])"
  let ?r = "\<lparr>data = map ?f (multi_indices ?T), shape = ?T, strides = get_strides_from_shape ?T\<rparr>"
  have "shape b \<noteq> []" using assms(2) by auto
  then have rd: "readable b" by (rule contiguous_readable[OF assms(1)])
  from sum_axis_result[OF rd assms(2)] obtain x1 run_sums x3 where
    p: "permute b (swapped [0..<length (shape b)] axis) = Inr x1"
       "contiguous x1" "shape x1 = swapped (shape b) axis"
       "traverse_dims_and_sum_along_last 0 0 x1 = Inr run_sums"
       "permute (MiniBuffer_init run_sums (swapped ?T axis) None)
             (swapped [0..<length (shape b)] axis) = Inr x3"
       "add x3 (full_like x3 0) = Inr x3" "sum_axis b axis = Inr x3" "x3 = ?r"
    by blast
  have c: "contiguous ?r" by (rule materialised_contiguous)
  have e: "element ?r k = ?f k" if "k \<in> set (multi_indices (shape ?r))" for k
    using element_materialised[of k ?T ?f] that by simp
  have stages: "\<exists>x1 run_sums x3.
              permute b (swapped [0..<length (shape b)] axis) = Inr x1 \<and>
              contiguous x1 \<and> shape x1 = swapped (shape b) axis \<and>
              traverse_dims_and_sum_along_last 0 0 x1 = Inr run_sums \<and>
              permute (MiniBuffer_init run_sums (swapped ?T axis) None)
                (swapped [0..<length (shape b)] axis) = Inr x3 \<and>
              add x3 (full_like x3 0) = Inr ?r"
    using p by blast
  have "sum_axis b axis = Inr ?r" using p(7,8) by simp
  moreover have "shape ?r = ?T" by simp
  ultimately show ?thesis
    using stages c e sum_all_ones by blast
qed

theorem sum_along_axis_witness:
  "contiguous example_matrix \<and> 0 < length (shape example_matrix) \<and>
   (\<exists>r. sum_axis example_matrix 0 = Inr r \<and> shape r = [1, 3] \<and> contiguous r) \<and>
   sum_axis (fill [2, 3] 1) 0 = Inr (fill [1, 3] 2)"
proof -
  have h: "0 < length (shape example_matrix)"
    by (simp add: example_matrix_def MiniBuffer_init_def)
  have s: "(shape example_matrix)[0 := 1] = [1, 3]"
    by (simp add: example_matrix_def MiniBuffer_init_def)
  from sum_along_axis[OF example_matrix_contiguous h, of 2 3] example_matrix_contiguous h
  show ?thesis by (simp only: s of_nat_numeral) blast
qed

section \<open>Storage, operations and tensors\<close>

text \<open>
  Modelled from the spec: \<open>storage.py\<close> is missing. A Storage is a thin wrapper that tags
  a Buffer with a dtype and passes every operation on to it; the tag takes part in none
  of the operations below, so a Storage is its Buffer here. A Storage built from a Python
  scalar holds one element in a buffer of shape \<open>(1,)\<close>, the shape that
  \<open>is_scalar\<close> accepts.
\<close>

type_synonym Storage = "real MiniBuffer"

definition Storage_shape :: "Storage \<Rightarrow> nat list" where
  "Storage_shape s = shape s"

definition Storage_rank :: "Storage \<Rightarrow> nat" where
  "Storage_rank s = length (shape s)"

definition Storage_is_scalar :: "Storage \<Rightarrow> bool" where
  "Storage_is_scalar s = is_scalar s"

definition Storage_from_scalar :: "real \<Rightarrow> Storage" where
  "Storage_from_scalar v = MiniBuffer_init [v] [1] None"

text \<open>
  Modelled from the spec: \<open>ops.py\<close> is missing. The forward step of an operation is a
  pure function of the inputs' storages: Reshape, Expand and Add pass on to the buffer
  operations of the same names.
\<close>

fun Reshape_forward :: "nat list \<Rightarrow> Storage list \<Rightarrow> error + Storage" where
  "Reshape_forward new_shape [s] = Inr (reshape s new_shape)"
| "Reshape_forward new_shape _ = Inl TypeError"

fun Expand_forward :: "nat \<Rightarrow> nat \<Rightarrow> Storage list \<Rightarrow> error + Storage" where
  "Expand_forward axis expanded_size [s] = expand s axis expanded_size"
| "Expand_forward axis expanded_size _ = Inl TypeError"

fun Add_forward :: "Storage list \<Rightarrow> error + Storage" where
  "Add_forward [a, b] = add a b"
| "Add_forward _ = Inl TypeError"

text \<open>
  A Tensor as the forward computations see it: its storage and its \<open>requires_grad\<close>
  flag. The constructor refuses a rank above 4.
\<close>

record Tensor =
  storage :: Storage
  requires_grad :: bool

definition Tensor_init :: "Storage \<Rightarrow> bool \<Rightarrow> error + Tensor" where
  "Tensor_init s rg =
     (if Storage_rank s \<le> 4 then Inr \<lparr>storage = s, requires_grad = rg\<rparr>
      else Inl AssertionError)"

definition Tensor_shape :: "'a Tensor_scheme \<Rightarrow> nat list" where
  "Tensor_shape t = Storage_shape (storage t)"

text \<open>
  \<open>Function.apply\<close>, as far as the value of the new tensor goes: the forward step runs
  on the inputs' storages and the result requires a gradient when an input does. The
  link from the new tensor to the operation is part of the graph, which is modelled
  with the differentiation pass.
\<close>

definition Function_apply ::
  "(Storage list \<Rightarrow> error + Storage) \<Rightarrow> Tensor list \<Rightarrow> error + Tensor" where
  "Function_apply forward inputs =
     ebind (forward (map storage inputs)) (\<lambda>s.
     Tensor_init s (\<exists>t \<in> set inputs. requires_grad t))"

text \<open>
  \<open>Tensor.reshape\<close> with the new shape given as one list (what \<open>helpers.argfix\<close>, which
  is missing, is taken to return), and \<open>pad_shapes\<close>.
\<close>

definition Tensor_reshape :: "Tensor \<Rightarrow> nat list \<Rightarrow> error + Tensor" where
  "Tensor_reshape self new_shape =
     (if 0 \<in> set new_shape then Inl AssertionError
      else if prod_list new_shape \<noteq> prod_list (Tensor_shape self) then Inl AssertionError
      else Function_apply (Reshape_forward new_shape) [self])"

definition pad_shapes :: "nat \<Rightarrow> Tensor \<Rightarrow> error + Tensor" where
  "pad_shapes shape_diff x =
     Function_apply (Reshape_forward (replicate shape_diff 1 @ Tensor_shape x)) [x]"

text \<open>The loop of \<open>Tensor.expand\<close> over the axes, with the tensor as its state.\<close>

fun expand_loop :: "nat list \<Rightarrow> nat list \<Rightarrow> Tensor \<Rightarrow> error + Tensor" where
  "expand_loop [] new_shape x = Inr x"
| "expand_loop (dim_idx # rest) new_shape x =
     ebind (list_get (Tensor_shape x) dim_idx) (\<lambda>d.
     ebind (list_get new_shape dim_idx) (\<lambda>n.
     if d \<noteq> n then
       (if d \<noteq> 1 then Inl AssertionError
        else ebind (Function_apply (Expand_forward dim_idx n) [x]) (\<lambda>x'.
             expand_loop rest new_shape x'))
     else expand_loop rest new_shape x))"

definition Tensor_expand :: "Tensor \<Rightarrow> nat list \<Rightarrow> error + Tensor" where
  "Tensor_expand self new_shape =
     (if length new_shape < length (Tensor_shape self) then Inl AssertionError
      else let shape_diff = length new_shape - length (Tensor_shape self)
      in ebind (if 0 < shape_diff then pad_shapes shape_diff self else Inr self) (\<lambda>x.
         expand_loop [0..<length (Tensor_shape x)] new_shape x))"

definition broadcasted :: "Tensor \<Rightarrow> Tensor \<Rightarrow> error + (Tensor \<times> Tensor)" where
  "broadcasted self y =
     (let x = self; xshape = Tensor_shape x; yshape = Tensor_shape y
      in if xshape = yshape then Inr (x, y)
      else
        ebind (if length yshape < length xshape
               then ebind (Tensor_reshape y (replicate (length xshape - length yshape) 1 @ yshape))
                      (\<lambda>y'. Inr (x, y'))
               else if length xshape < length yshape
               then ebind (Tensor_reshape x (replicate (length yshape - length xshape) 1 @ xshape))
                      (\<lambda>x'. Inr (x', y))
               else Inr (x, y)) (\<lambda>(x, y).
        let xshape = Tensor_shape x; yshape = Tensor_shape y
        in if xshape = yshape then Inr (x, y)
        else
          let shape_ret = map (\<lambda>(a, b). max a b) (zip xshape yshape)
          in ebind (if xshape \<noteq> shape_ret then Tensor_expand x shape_ret else Inr x) (\<lambda>x.
             ebind (if yshape \<noteq> shape_ret then Tensor_expand y shape_ret else Inr y) (\<lambda>y.
             Inr (x, y)))))"

text \<open>
  \<open>Tensor.__add__\<close> of two tensors: broadcast, then the Add operation. The comparison
  of the dtypes, made only under \<open>DEBUG\<close>, is left out.
\<close>

definition Tensor_add :: "Tensor \<Rightarrow> Tensor \<Rightarrow> error + Tensor" where
  "Tensor_add self other =
     ebind (broadcasted self other) (\<lambda>(x, y). Function_apply Add_forward [x, y])"

definition Tensor_is_scalar :: "'a Tensor_scheme \<Rightarrow> bool" where
  "Tensor_is_scalar t = Storage_is_scalar (storage t)"

text \<open>A contiguous storage of rank 1, for examples.\<close>

definition vec :: "real list \<Rightarrow> Storage" where
  "vec xs = MiniBuffer_init xs [length xs] None"

section \<open>Broadcasting\<close>

text \<open>
  The contract in the spec's words: the shape of the lower rank is padded on the left
  with 1s, the result shape is the maximum per axis, and a tensor is expanded along the
  axes where its size is 1 and the result is larger, one axis after the other.
\<close>

definition left_pad :: "nat \<Rightarrow> nat list \<Rightarrow> nat list" where
  "left_pad r s = replicate (r - length s) 1 @ s"

definition broadcast_shape :: "nat list \<Rightarrow> nat list \<Rightarrow> nat list" where
  "broadcast_shape s1 s2 =
     (let r = max (length s1) (length s2)
      in map (\<lambda>(a, b). max a b) (zip (left_pad r s1) (left_pad r s2)))"

fun expand_axes :: "real MiniBuffer \<Rightarrow> nat list \<Rightarrow> nat list \<Rightarrow> error + real MiniBuffer" where
  "expand_axes b [] target = Inr b"
| "expand_axes b (axis # axes) target =
     ebind (expand b axis (target ! axis)) (\<lambda>b'. expand_axes b' axes target)"

definition axes_to_expand :: "nat list \<Rightarrow> nat list \<Rightarrow> nat list" where
  "axes_to_expand s target = filter (\<lambda>i. s ! i = 1 \<and> 1 < target ! i) [0..<length s]"

text \<open>
  Two shapes can be broadcast when, after padding, the two sizes of every axis are equal
  or one of them is 1 and the other is larger, and the shape that has to be padded has
  no empty axis (\<open>Tensor.reshape\<close> refuses a 0 in the new shape). An empty axis that needs
  no padding and no expansion is no obstacle.
\<close>

definition broadcastable :: "nat list \<Rightarrow> nat list \<Rightarrow> bool" where
  "broadcastable s1 s2 \<longleftrightarrow>
     (length s1 < length s2 \<longrightarrow> 0 \<notin> set s1) \<and>
     (length s2 < length s1 \<longrightarrow> 0 \<notin> set s2) \<and>
     (let r = max (length s1) (length s2)
      in \<forall>i < r. left_pad r s1 ! i = left_pad r s2 ! i \<or>
                  (left_pad r s1 ! i = 1 \<and> 1 < left_pad r s2 ! i) \<or>
                  (left_pad r s2 ! i = 1 \<and> 1 < left_pad r s1 ! i))"

lemma expand_contiguous:
  assumes "contiguous b" "axis < length (shape b)" "shape b ! axis = 1"
  shows "\<exists>b'. expand b axis e = Inr b' \<and> contiguous b' \<and> shape b' = (shape b)[axis := e]"
proof -
  have "shape b \<noteq> []" using assms(2) by auto
  then have "readable b" using assms(1) by (rule contiguous_readable[rotated])
  moreover have "length (data b) = prod_list (shape b)"
    using assms(1) by (simp add: contiguous_def)
  ultimately show ?thesis
    using expand_result[of b axis e] assms(2,3) materialised_contiguous by simp
qed

lemma expand_loop_spec:
  assumes "contiguous (storage x)" "length t = length (shape (storage x))"
    and "length (shape (storage x)) \<le> 4"
    and "\<And>i. i \<in> set idxs \<Longrightarrow> i < length (shape (storage x)) \<and>
              (shape (storage x) ! i = t ! i \<or> shape (storage x) ! i = 1)"
    and "distinct idxs"
  shows "\<exists>x'. expand_loop idxs t x = Inr x' \<and> contiguous (storage x') \<and>
              requires_grad x' = requires_grad x \<and>
              shape (storage x') =
                map (\<lambda>i. if i \<in> set idxs then t ! i else shape (storage x) ! i)
                    [0..<length (shape (storage x))] \<and>
              expand_axes (storage x) (filter (\<lambda>i. shape (storage x) ! i \<noteq> t ! i) idxs) t
                = Inr (storage x')"
  using assms
proof (induction idxs arbitrary: x)
  case Nil
  then show ?case by (simp add: map_nth)
next
  case (Cons d rest)
  let ?S = "shape (storage x)"
  have d: "d < length ?S" "?S ! d = t ! d \<or> ?S ! d = 1"
    using Cons.prems(4)[of d] by simp_all
  show ?case
  proof (cases "?S ! d = t ! d")
    case True
    have "\<exists>x'. expand_loop rest t x = Inr x' \<and> contiguous (storage x') \<and>
              requires_grad x' = requires_grad x \<and>
              shape (storage x') = map (\<lambda>i. if i \<in> set rest then t ! i else ?S ! i) [0..<length ?S] \<and>
              expand_axes (storage x) (filter (\<lambda>i. ?S ! i \<noteq> t ! i) rest) t = Inr (storage x')"
      using Cons.prems by (intro Cons.IH) auto
    then obtain x' where x': "expand_loop rest t x = Inr x'" "contiguous (storage x')"
      "requires_grad x' = requires_grad x"
      "shape (storage x') = map (\<lambda>i. if i \<in> set rest then t ! i else ?S ! i) [0..<length ?S]"
      "expand_axes (storage x) (filter (\<lambda>i. ?S ! i \<noteq> t ! i) rest) t = Inr (storage x')"
      by blast
    have "map (\<lambda>i. if i \<in> set rest then t ! i else ?S ! i) [0..<length ?S]
        = map (\<lambda>i. if i \<in> set (d # rest) then t ! i else ?S ! i) [0..<length ?S]"
      using True by auto
    moreover have "expand_loop (d # rest) t x = expand_loop rest t x"
      using True d Cons.prems(2)
      by (simp add: Tensor_shape_def Storage_shape_def)
    ultimately show ?thesis using x' True by auto
  next
    case False
    then have one: "?S ! d = 1" using d by simp
    from expand_contiguous[OF Cons.prems(1) d(1) one, of "t ! d"] obtain b' where
      b': "expand (storage x) d (t ! d) = Inr b'" "contiguous b'" "shape b' = ?S[d := t ! d]"
      by blast
    let ?x1 = "\<lparr>storage = b', requires_grad = requires_grad x\<rparr>"
    have ap: "Function_apply (Expand_forward d (t ! d)) [x] = Inr ?x1"
      using b' Cons.prems(3) by (simp add: Function_apply_def Tensor_init_def Storage_rank_def)
    have "\<exists>x'. expand_loop rest t ?x1 = Inr x' \<and> contiguous (storage x') \<and>
              requires_grad x' = requires_grad ?x1 \<and>
              shape (storage x') =
                map (\<lambda>i. if i \<in> set rest then t ! i else shape (storage ?x1) ! i)
                    [0..<length (shape (storage ?x1))] \<and>
              expand_axes (storage ?x1) (filter (\<lambda>i. shape (storage ?x1) ! i \<noteq> t ! i) rest) t
                = Inr (storage x')"
    proof (rule Cons.IH)
      show "contiguous (storage ?x1)" using b' by simp
      show "length t = length (shape (storage ?x1))" using b' Cons.prems(2) by simp
      show "length (shape (storage ?x1)) \<le> 4" using b' Cons.prems(3) by simp
      show "distinct rest" using Cons.prems(5) by simp
      show "i < length (shape (storage ?x1)) \<and>
            (shape (storage ?x1) ! i = t ! i \<or> shape (storage ?x1) ! i = 1)"
        if "i \<in> set rest" for i
      proof -
        from that Cons.prems(5) have "i \<noteq> d" by auto
        then have "(?S[d := t ! d]) ! i = ?S ! i" by simp
        then show ?thesis using that Cons.prems(4)[of i] b' by simp
      qed
    qed
    then obtain x' where x': "expand_loop rest t ?x1 = Inr x'" "contiguous (storage x')"
      "requires_grad x' = requires_grad x"
      "shape (storage x') = map (\<lambda>i. if i \<in> set rest then t ! i else (?S[d := t ! d]) ! i) [0..<length ?S]"
      "expand_axes b' (filter (\<lambda>i. (?S[d := t ! d]) ! i \<noteq> t ! i) rest) t = Inr (storage x')"
      using b' by auto
    have "map (\<lambda>i. if i \<in> set rest then t ! i else (?S[d := t ! d]) ! i) [0..<length ?S]
        = map (\<lambda>i. if i \<in> set (d # rest) then t ! i else ?S ! i) [0..<length ?S]"
      by (auto simp: nth_list_update)
    moreover have "filter (\<lambda>i. (?S[d := t ! d]) ! i \<noteq> t ! i) rest = filter (\<lambda>i. ?S ! i \<noteq> t ! i) rest"
    proof (rule filter_cong[OF refl])
      fix i assume "i \<in> set rest"
      with Cons.prems(5) have "i \<noteq> d" by auto
      then show "((?S[d := t ! d]) ! i \<noteq> t ! i) = (?S ! i \<noteq> t ! i)" by simp
    qed
    moreover have "expand_loop (d # rest) t x = expand_loop rest t ?x1"
      using False one d Cons.prems(2) ap
      by (simp add: Tensor_shape_def Storage_shape_def)
    ultimately show ?thesis using x' False b' by auto
  qed
qed

text \<open>
  The loop stops with the failed assertion at the first axis whose size is neither the
  new one nor 1; the expansions made before that axis all succeed.
\<close>

lemma expand_loop_refuses:
  assumes "contiguous (storage x)" "length t = length (shape (storage x))"
    and "length (shape (storage x)) \<le> 4"
    and "\<And>i. i \<in> set idxs \<Longrightarrow> i < length (shape (storage x))"
    and "distinct idxs"
    and "\<exists>i \<in> set idxs. shape (storage x) ! i \<noteq> t ! i \<and> shape (storage x) ! i \<noteq> 1"
  shows "expand_loop idxs t x = Inl AssertionError"
  using assms
proof (induction idxs arbitrary: x)
  case Nil
  then show ?case by simp
next
  case (Cons d rest)
  let ?S = "shape (storage x)"
  have d: "d < length ?S" "d < length t" using Cons.prems(2) Cons.prems(4)[of d] by simp_all
  from Cons.prems(6) obtain j where j: "j \<in> set (d # rest)" "?S ! j \<noteq> t ! j" "?S ! j \<noteq> 1"
    by blast
  consider (same) "?S ! d = t ! d" | (bad) "?S ! d \<noteq> t ! d" "?S ! d \<noteq> 1"
    | (one) "?S ! d \<noteq> t ! d" "?S ! d = 1"
    by blast
  then show ?case
  proof cases
    case same
    then have "j \<in> set rest" using j by auto
    then have "expand_loop rest t x = Inl AssertionError"
      using Cons.prems j by (intro Cons.IH) auto
    moreover have "expand_loop (d # rest) t x = expand_loop rest t x"
      using same d by (simp add: Tensor_shape_def Storage_shape_def)
    ultimately show ?thesis by simp
  next
    case bad
    then show ?thesis using d by (simp add: Tensor_shape_def Storage_shape_def)
  next
    case one
    from expand_contiguous[OF Cons.prems(1) d(1) one(2), of "t ! d"] obtain b' where
      b': "expand (storage x) d (t ! d) = Inr b'" "contiguous b'" "shape b' = ?S[d := t ! d]"
      by blast
    let ?x1 = "\<lparr>storage = b', requires_grad = requires_grad x\<rparr>"
    have ap: "Function_apply (Expand_forward d (t ! d)) [x] = Inr ?x1"
      using b' Cons.prems(3) by (simp add: Function_apply_def Tensor_init_def Storage_rank_def)
    have jd: "j \<in> set rest" "j \<noteq> d" using j one Cons.prems(5) by auto
    have "expand_loop rest t ?x1 = Inl AssertionError"
    proof (rule Cons.IH)
      show "contiguous (storage ?x1)" using b' by simp
      show "length t = length (shape (storage ?x1))" using b' Cons.prems(2) by simp
      show "length (shape (storage ?x1)) \<le> 4" using b' Cons.prems(3) by simp
      show "distinct rest" using Cons.prems(5) by simp
      show "i < length (shape (storage ?x1))" if "i \<in> set rest" for i
        using that Cons.prems(4)[of i] b' by simp
      show "\<exists>i \<in> set rest. shape (storage ?x1) ! i \<noteq> t ! i \<and> shape (storage ?x1) ! i \<noteq> 1"
        using jd j b' by (intro bexI[of _ j]) simp_all
    qed
    moreover have "expand_loop (d # rest) t x = expand_loop rest t ?x1"
      using one d ap by (simp add: Tensor_shape_def Storage_shape_def)
    ultimately show ?thesis by simp
  qed
qed

lemma Tensor_expand_spec:
  assumes "contiguous (storage x)" "length t = length (shape (storage x))"
    and "length (shape (storage x)) \<le> 4"
    and "\<And>i. i < length (shape (storage x)) \<Longrightarrow>
              shape (storage x) ! i = t ! i \<or> shape (storage x) ! i = 1"
  shows "\<exists>x'. Tensor_expand x t = Inr x' \<and> contiguous (storage x') \<and>
              requires_grad x' = requires_grad x \<and> shape (storage x') = t \<and>
              expand_axes (storage x)
                (filter (\<lambda>i. shape (storage x) ! i \<noteq> t ! i) [0..<length (shape (storage x))]) t
                = Inr (storage x')"
proof -
  let ?S = "shape (storage x)"
  have "map (\<lambda>i. if i \<in> set [0..<length ?S] then t ! i else ?S ! i) [0..<length ?S] = t"
    using assms(2) by (intro nth_equalityI) auto
  moreover have "Tensor_expand x t = expand_loop [0..<length ?S] t x"
    using assms(2) by (simp add: Tensor_expand_def Tensor_shape_def Storage_shape_def)
  ultimately show ?thesis
    using expand_loop_spec[of x t "[0..<length ?S]"] assms by auto
qed

lemma Tensor_expand_refuses:
  assumes "contiguous (storage x)" "length t = length (shape (storage x))"
    and "length (shape (storage x)) \<le> 4"
    and "i < length (shape (storage x))"
    and "shape (storage x) ! i \<noteq> t ! i" "shape (storage x) ! i \<noteq> 1"
  shows "Tensor_expand x t = Inl AssertionError"
proof -
  let ?S = "shape (storage x)"
  have "Tensor_expand x t = expand_loop [0..<length ?S] t x"
    using assms(2) by (simp add: Tensor_expand_def Tensor_shape_def Storage_shape_def)
  moreover have "expand_loop [0..<length ?S] t x = Inl AssertionError"
  proof (rule expand_loop_refuses[OF assms(1-3)])
    show "distinct [0..<length ?S]" by simp
    show "j < length ?S" if "j \<in> set [0..<length ?S]" for j using that by simp
    show "\<exists>j \<in> set [0..<length ?S]. ?S ! j \<noteq> t ! j \<and> ?S ! j \<noteq> 1"
      using assms(4-6) by (intro bexI[of _ i]) simp_all
  qed
  ultimately show ?thesis by simp
qed

lemma length_left_pad: "length s \<le> r \<Longrightarrow> length (left_pad r s) = r"
  by (simp add: left_pad_def)

lemma left_pad_same [simp]: "left_pad (length s) s = s"
  by (simp add: left_pad_def)

lemma prod_list_left_pad [simp]: "prod_list (left_pad r s) = prod_list s"
  by (simp add: left_pad_def)

lemma reshape_contiguous:
  assumes "contiguous b" "prod_list t = prod_list (shape b)"
  shows "contiguous (reshape b t)" "shape (reshape b t) = t"
  using assms by (simp_all add: reshape_def MiniBuffer_init_def contiguous_def)

lemma reshape_same:
  assumes "contiguous b"
  shows "reshape b (shape b) = b"
  using assms by (simp add: reshape_def MiniBuffer_init_def contiguous_def)

lemma Tensor_reshape_pad:
  assumes "contiguous (storage y)" "0 \<notin> set (shape (storage y))"
    and "length (shape (storage y)) \<le> r" "r \<le> 4"
  shows "Tensor_reshape y (replicate (r - length (shape (storage y))) 1 @ shape (storage y)) =
           Inr \<lparr>storage = reshape (storage y) (left_pad r (shape (storage y))),
                requires_grad = requires_grad y\<rparr>"
  using assms
  by (simp add: Tensor_reshape_def Tensor_shape_def Storage_shape_def Function_apply_def
      Tensor_init_def Storage_rank_def reshape_def MiniBuffer_init_def left_pad_def)

lemma expand_side:
  assumes "contiguous (storage z)" "shape (storage z) = P" "length ret = length P"
    and "length P \<le> 4"
    and "\<And>i. i < length P \<Longrightarrow> P ! i = ret ! i \<or> (P ! i = 1 \<and> 1 < ret ! i)"
  shows "\<exists>z'. (if Tensor_shape z \<noteq> ret then Tensor_expand z ret else Inr z) = Inr z' \<and>
               Tensor_shape z' = ret \<and> requires_grad z' = requires_grad z \<and>
               expand_axes (storage z) (axes_to_expand P ret) ret = Inr (storage z')"
proof (cases "P = ret")
  case True
  then have "axes_to_expand P ret = []"
    by (auto simp: axes_to_expand_def filter_empty_conv)
  then show ?thesis using True assms(2)
    by (simp add: Tensor_shape_def Storage_shape_def)
next
  case False
  have "filter (\<lambda>i. P ! i \<noteq> ret ! i) [0..<length P] = axes_to_expand P ret"
    unfolding axes_to_expand_def
  proof (rule filter_cong[OF refl])
    fix i assume "i \<in> set [0..<length P]"
    then have "P ! i = ret ! i \<or> (P ! i = 1 \<and> 1 < ret ! i)" using assms(5)[of i] by simp
    then show "(P ! i \<noteq> ret ! i) = (P ! i = 1 \<and> 1 < ret ! i)" by auto
  qed
  moreover have "\<exists>x'. Tensor_expand z ret = Inr x' \<and> contiguous (storage x') \<and>
              requires_grad x' = requires_grad z \<and> shape (storage x') = ret \<and>
              expand_axes (storage z)
                (filter (\<lambda>i. shape (storage z) ! i \<noteq> ret ! i) [0..<length (shape (storage z))]) ret
                = Inr (storage x')"
  proof (rule Tensor_expand_spec[OF assms(1)])
    show "length ret = length (shape (storage z))" using assms(2,3) by simp
    show "length (shape (storage z)) \<le> 4" using assms(2,4) by simp
    show "shape (storage z) ! i = ret ! i \<or> shape (storage z) ! i = 1"
      if "i < length (shape (storage z))" for i
      using that assms(2) assms(5)[of i] by auto
  qed
  ultimately show ?thesis using False assms(2)
    by (auto simp: Tensor_shape_def Storage_shape_def)
qed

text \<open>Tensors of equal shapes come back as they are, whatever they hold.\<close>

lemma broadcasted_equal_shapes:
  "Tensor_shape x = Tensor_shape y \<Longrightarrow> broadcasted x y = Inr (x, y)"
  by (simp add: broadcasted_def)

text \<open>A shape with an empty axis that has to be padded is refused by \<open>Tensor.reshape\<close>.\<close>

lemma broadcasted_padding_refuses:
  assumes "(length (Tensor_shape x) < length (Tensor_shape y) \<and> 0 \<in> set (Tensor_shape x)) \<or>
           (length (Tensor_shape y) < length (Tensor_shape x) \<and> 0 \<in> set (Tensor_shape y))"
  shows "broadcasted x y = Inl AssertionError"
proof -
  have "Tensor_shape x \<noteq> Tensor_shape y" using assms by auto
  then show ?thesis using assms
    by (auto simp: broadcasted_def Let_def Tensor_reshape_def)
qed

text \<open>
  After the padding step: \<open>x1\<close> and \<open>y1\<close> are the two tensors with their padded shapes
  \<open>P1\<close> and \<open>P2\<close>, and what is left of \<open>_broadcasted\<close> is the second comparison of the
  shapes and the two calls of \<open>Tensor.expand\<close>.
\<close>

lemma broadcasted_after_padding:
  assumes "contiguous (storage x)" "contiguous (storage y)"
    and "length (Tensor_shape x) \<le> 4" "length (Tensor_shape y) \<le> 4"
    and "length (Tensor_shape x) < length (Tensor_shape y) \<Longrightarrow> 0 \<notin> set (Tensor_shape x)"
    and "length (Tensor_shape y) < length (Tensor_shape x) \<Longrightarrow> 0 \<notin> set (Tensor_shape y)"
    and "r = max (length (Tensor_shape x)) (length (Tensor_shape y))"
    and "P1 = left_pad r (Tensor_shape x)" "P2 = left_pad r (Tensor_shape y)"
    and "x1 = \<lparr>storage = reshape (storage x) P1, requires_grad = requires_grad x\<rparr>"
    and "y1 = \<lparr>storage = reshape (storage y) P2, requires_grad = requires_grad y\<rparr>"
    and "ret = map (\<lambda>(a, b). max a b) (zip P1 P2)"
  shows "broadcasted x y =
           (if P1 = P2 then Inr (x1, y1)
            else ebind (if P1 \<noteq> ret then Tensor_expand x1 ret else Inr x1) (\<lambda>x'.
                 ebind (if P2 \<noteq> ret then Tensor_expand y1 ret else Inr y1) (\<lambda>y'.
                 Inr (x', y'))))"
    and "contiguous (storage x1)" "shape (storage x1) = P1"
    and "contiguous (storage y1)" "shape (storage y1) = P2"
    and "length P1 = r" "length P2 = r" "r \<le> 4"
proof -
  define S1 where "S1 = shape (storage x)"
  define S2 where "S2 = shape (storage y)"
  have sh: "Tensor_shape x = S1" "Tensor_shape y = S2"
    by (simp_all add: Tensor_shape_def Storage_shape_def S1_def S2_def)
  have r_def: "r = max (length S1) (length S2)" and P1_def: "P1 = left_pad r S1"
    and P2_def: "P2 = left_pad r S2"
    using assms(7-9) by (simp_all add: sh)
  note x1_def = assms(10) and y1_def = assms(11) and ret_def = assms(12)
  show r4: "r \<le> 4" using assms(3,4) by (simp add: r_def sh)
  show lP: "length P1 = r" "length P2 = r"
    by (simp_all add: P1_def P2_def r_def length_left_pad)
  show cx1: "contiguous (storage x1)" "shape (storage x1) = P1"
    using reshape_contiguous[OF assms(1), of P1] by (simp_all add: x1_def P1_def S1_def)
  show cy1: "contiguous (storage y1)" "shape (storage y1) = P2"
    using reshape_contiguous[OF assms(2), of P2] by (simp_all add: y1_def P2_def S2_def)
  have x1_same: "x1 = x" if "length S2 \<le> length S1"
  proof -
    from that have "P1 = S1" by (simp add: P1_def r_def max_def)
    then show ?thesis using reshape_same[OF assms(1)] by (simp add: x1_def S1_def)
  qed
  have y1_same: "y1 = y" if "length S1 \<le> length S2"
  proof -
    from that have "P2 = S2" by (simp add: P2_def r_def max_def)
    then show ?thesis using reshape_same[OF assms(2)] by (simp add: y1_def S2_def)
  qed
  have padx: "Tensor_reshape x (replicate (length S2 - length S1) 1 @ S1) = Inr x1"
    if "length S1 < length S2"
  proof -
    from that have "r = length S2" by (simp add: r_def)
    moreover have "0 \<notin> set S1" using assms(5) that by (simp add: sh)
    ultimately show ?thesis
      using Tensor_reshape_pad[of x r] assms(1) that r4
      by (simp add: S1_def x1_def P1_def)
  qed
  have pady: "Tensor_reshape y (replicate (length S1 - length S2) 1 @ S2) = Inr y1"
    if "length S2 < length S1"
  proof -
    from that have "r = length S1" by (simp add: r_def)
    moreover have "0 \<notin> set S2" using assms(6) that by (simp add: sh)
    ultimately show ?thesis
      using Tensor_reshape_pad[of y r] assms(2) that r4
      by (simp add: S2_def y1_def P2_def)
  qed
  have shx1: "Tensor_shape x1 = P1" and shy1: "Tensor_shape y1 = P2"
    using cx1 cy1 by (simp_all add: Tensor_shape_def Storage_shape_def)
  show "broadcasted x y =
           (if P1 = P2 then Inr (x1, y1)
            else ebind (if P1 \<noteq> ret then Tensor_expand x1 ret else Inr x1) (\<lambda>x'.
                 ebind (if P2 \<noteq> ret then Tensor_expand y1 ret else Inr y1) (\<lambda>y'.
                 Inr (x', y'))))"
  proof (cases "S1 = S2")
    case True
    then have "P1 = P2" by (simp add: P1_def P2_def)
    moreover have "x1 = x" "y1 = y" using True x1_same y1_same by simp_all
    ultimately show ?thesis using True
      by (simp add: broadcasted_def sh Let_def)
  next
    case False
    have pad: "(if length S2 < length S1
               then ebind (Tensor_reshape y (replicate (length S1 - length S2) 1 @ S2))
                      (\<lambda>y'. Inr (x, y'))
               else if length S1 < length S2
               then ebind (Tensor_reshape x (replicate (length S2 - length S1) 1 @ S1))
                      (\<lambda>x'. Inr (x', y))
               else Inr (x, y)) = Inr (x1, y1)"
      using padx pady x1_same y1_same by auto
    have "broadcasted x y =
        ebind (Inr (x1, y1)) (\<lambda>(x, y).
        let xshape = Tensor_shape x; yshape = Tensor_shape y
        in if xshape = yshape then Inr (x, y)
        else
          let shape_ret = map (\<lambda>(a, b). max a b) (zip xshape yshape)
          in ebind (if xshape \<noteq> shape_ret then Tensor_expand x shape_ret else Inr x) (\<lambda>x.
             ebind (if yshape \<noteq> shape_ret then Tensor_expand y shape_ret else Inr y) (\<lambda>y.
             Inr (x, y))))"
      by (simp only: broadcasted_def Let_def sh False if_False pad)
    also have "\<dots> = (if P1 = P2 then Inr (x1, y1)
        else ebind (if P1 \<noteq> ret then Tensor_expand x1 ret else Inr x1) (\<lambda>x.
             ebind (if P2 \<noteq> ret then Tensor_expand y1 ret else Inr y1) (\<lambda>y.
             Inr (x, y))))"
      by (simp only: ebind_Inr prod.case Let_def shx1 shy1 ret_def)
    finally show ?thesis .
  qed
qed

text \<open>Shapes that can be broadcast: both tensors come back with the result shape.\<close>

lemma broadcasted_succeeds:
  assumes "contiguous (storage x)" "contiguous (storage y)"
    and "length (Tensor_shape x) \<le> 4" "length (Tensor_shape y) \<le> 4"
    and "broadcastable (Tensor_shape x) (Tensor_shape y)"
    and "r = max (length (Tensor_shape x)) (length (Tensor_shape y))"
    and "shape_ret = broadcast_shape (Tensor_shape x) (Tensor_shape y)"
  shows "\<exists>x' y'. broadcasted x y = Inr (x', y') \<and>
              Tensor_shape x' = shape_ret \<and> Tensor_shape y' = shape_ret \<and>
              length shape_ret = r \<and>
              (\<forall>i < r. shape_ret ! i =
                 max (left_pad r (Tensor_shape x) ! i) (left_pad r (Tensor_shape y) ! i)) \<and>
              requires_grad x' = requires_grad x \<and> requires_grad y' = requires_grad y \<and>
              expand_axes (reshape (storage x) (left_pad r (Tensor_shape x)))
                (axes_to_expand (left_pad r (Tensor_shape x)) shape_ret) shape_ret
                = Inr (storage x') \<and>
              expand_axes (reshape (storage y) (left_pad r (Tensor_shape y)))
                (axes_to_expand (left_pad r (Tensor_shape y)) shape_ret) shape_ret
                = Inr (storage y')"
proof -
  define P1 where "P1 = left_pad r (Tensor_shape x)"
  define P2 where "P2 = left_pad r (Tensor_shape y)"
  define ret where "ret = map (\<lambda>(a, b). max a b) (zip P1 P2)"
  define x1 where "x1 = \<lparr>storage = reshape (storage x) P1, requires_grad = requires_grad x\<rparr>"
  define y1 where "y1 = \<lparr>storage = reshape (storage y) P2, requires_grad = requires_grad y\<rparr>"
  have zero: "length (Tensor_shape x) < length (Tensor_shape y) \<Longrightarrow> 0 \<notin> set (Tensor_shape x)"
    "length (Tensor_shape y) < length (Tensor_shape x) \<Longrightarrow> 0 \<notin> set (Tensor_shape y)"
    and compat: "\<And>i. i < r \<Longrightarrow> P1 ! i = P2 ! i \<or> (P1 ! i = 1 \<and> 1 < P2 ! i) \<or>
                                  (P2 ! i = 1 \<and> 1 < P1 ! i)"
    using assms(5) by (simp_all add: broadcastable_def Let_def assms(6) P1_def P2_def)
  note after = broadcasted_after_padding[OF assms(1-4) zero assms(6) P1_def P2_def
      x1_def y1_def ret_def]
  have lP: "length P1 = r" "length P2 = r" and r4: "r \<le> 4" by (simp_all add: after(6-8))
  have lret: "length ret = r" by (simp add: ret_def lP)
  have ret_nth: "ret ! i = max (P1 ! i) (P2 ! i)" if "i < r" for i
    using that lP by (simp add: ret_def)
  have ret_eq: "shape_ret = ret"
    by (simp add: assms(7) broadcast_shape_def Let_def ret_def P1_def P2_def assms(6))
  have sidex: "\<exists>z'. (if Tensor_shape x1 \<noteq> ret then Tensor_expand x1 ret else Inr x1) = Inr z' \<and>
               Tensor_shape z' = ret \<and> requires_grad z' = requires_grad x1 \<and>
               expand_axes (storage x1) (axes_to_expand P1 ret) ret = Inr (storage z')"
  proof (rule expand_side[OF after(2,3)])
    show "length ret = length P1" by (simp add: lret lP)
    show "length P1 \<le> 4" using r4 lP by simp
    show "P1 ! i = ret ! i \<or> (P1 ! i = 1 \<and> 1 < ret ! i)" if "i < length P1" for i
      using that compat[of i] ret_nth[of i] lP by (auto simp: max_def)
  qed
  have sidey: "\<exists>z'. (if Tensor_shape y1 \<noteq> ret then Tensor_expand y1 ret else Inr y1) = Inr z' \<and>
               Tensor_shape z' = ret \<and> requires_grad z' = requires_grad y1 \<and>
               expand_axes (storage y1) (axes_to_expand P2 ret) ret = Inr (storage z')"
  proof (rule expand_side[OF after(4,5)])
    show "length ret = length P2" by (simp add: lret lP)
    show "length P2 \<le> 4" using r4 lP by simp
    show "P2 ! i = ret ! i \<or> (P2 ! i = 1 \<and> 1 < ret ! i)" if "i < length P2" for i
      using that compat[of i] ret_nth[of i] lP by (auto simp: max_def)
  qed
  have shx1: "Tensor_shape x1 = P1" and shy1: "Tensor_shape y1 = P2"
    using after(3,5) by (simp_all add: Tensor_shape_def Storage_shape_def)
  from sidex obtain x' where x':
    "(if P1 \<noteq> ret then Tensor_expand x1 ret else Inr x1) = Inr x'"
    "Tensor_shape x' = ret" "requires_grad x' = requires_grad x"
    "expand_axes (reshape (storage x) P1) (axes_to_expand P1 ret) ret = Inr (storage x')"
    by (auto simp: x1_def shx1[unfolded x1_def])
  from sidey obtain y' where y':
    "(if P2 \<noteq> ret then Tensor_expand y1 ret else Inr y1) = Inr y'"
    "Tensor_shape y' = ret" "requires_grad y' = requires_grad y"
    "expand_axes (reshape (storage y) P2) (axes_to_expand P2 ret) ret = Inr (storage y')"
    by (auto simp: y1_def shy1[unfolded y1_def])
  have same_after: "x' = x1 \<and> y' = y1" if "P1 = P2"
  proof -
    from that have "ret = P1" "ret = P2"
      using lP by (auto simp: ret_def intro!: nth_equalityI)
    then show ?thesis using x'(1) y'(1) by simp
  qed
  have result: "broadcasted x y = Inr (x', y')"
    using after(1) same_after x'(1) y'(1) by (cases "P1 = P2") simp_all
  show ?thesis
    unfolding ret_eq
    using result x'(2-4) y'(2-4) lret ret_nth
    by (auto simp: P1_def P2_def)
qed

text \<open>
  Shapes that cannot be broadcast: the call stops with a failed assertion, in
  \<open>Tensor.reshape\<close> when the shape to be padded has an empty axis and otherwise in
  \<open>Tensor.expand\<close>, at an axis whose size is neither the result's nor 1.
\<close>

lemma broadcasted_refuses:
  assumes "contiguous (storage x)" "contiguous (storage y)"
    and "length (Tensor_shape x) \<le> 4" "length (Tensor_shape y) \<le> 4"
    and "\<not> broadcastable (Tensor_shape x) (Tensor_shape y)"
  shows "broadcasted x y = Inl AssertionError"
proof (cases "(length (Tensor_shape x) < length (Tensor_shape y) \<and> 0 \<in> set (Tensor_shape x)) \<or>
           (length (Tensor_shape y) < length (Tensor_shape x) \<and> 0 \<in> set (Tensor_shape y))")
  case True
  then show ?thesis by (rule broadcasted_padding_refuses)
next
  case False
  define r where "r = max (length (Tensor_shape x)) (length (Tensor_shape y))"
  define P1 where "P1 = left_pad r (Tensor_shape x)"
  define P2 where "P2 = left_pad r (Tensor_shape y)"
  define ret where "ret = map (\<lambda>(a, b). max a b) (zip P1 P2)"
  define x1 where "x1 = \<lparr>storage = reshape (storage x) P1, requires_grad = requires_grad x\<rparr>"
  define y1 where "y1 = \<lparr>storage = reshape (storage y) P2, requires_grad = requires_grad y\<rparr>"
  have zero: "length (Tensor_shape x) < length (Tensor_shape y) \<Longrightarrow> 0 \<notin> set (Tensor_shape x)"
    "length (Tensor_shape y) < length (Tensor_shape x) \<Longrightarrow> 0 \<notin> set (Tensor_shape y)"
    using False by auto
  note after = broadcasted_after_padding[OF assms(1-4) zero r_def P1_def P2_def
      x1_def y1_def ret_def]
  have lP: "length P1 = r" "length P2 = r" and r4: "r \<le> 4" by (simp_all add: after(6-8))
  have lret: "length ret = r" by (simp add: ret_def lP)
  have ret_nth: "ret ! i = max (P1 ! i) (P2 ! i)" if "i < r" for i
    using that lP by (simp add: ret_def)
  from assms(5) zero obtain j where j: "j < r" "P1 ! j \<noteq> P2 ! j"
    "\<not> (P1 ! j = 1 \<and> 1 < P2 ! j)" "\<not> (P2 ! j = 1 \<and> 1 < P1 ! j)"
    by (auto simp: broadcastable_def Let_def r_def P1_def P2_def)
  have ne: "P1 \<noteq> P2" using j(2) by auto
  have run: "broadcasted x y =
      ebind (if P1 \<noteq> ret then Tensor_expand x1 ret else Inr x1) (\<lambda>x'.
      ebind (if P2 \<noteq> ret then Tensor_expand y1 ret else Inr y1) (\<lambda>y'. Inr (x', y')))"
    using after(1) ne by simp
  show ?thesis
  proof (cases "\<exists>i < r. P1 ! i \<noteq> ret ! i \<and> P1 ! i \<noteq> 1")
    case True
    then obtain i where i: "i < r" "P1 ! i \<noteq> ret ! i" "P1 ! i \<noteq> 1" by blast
    have "Tensor_expand x1 ret = Inl AssertionError"
      using i lP lret r4 after(3)
      by (intro Tensor_expand_refuses[OF after(2), of ret i]) simp_all
    moreover have "P1 \<noteq> ret" using i(2) by auto
    ultimately show ?thesis using run by simp
  next
    case False
    then have okx: "P1 ! i = ret ! i \<or> P1 ! i = 1" if "i < r" for i using that by blast
    have "\<exists>z'. (if Tensor_shape x1 \<noteq> ret then Tensor_expand x1 ret else Inr x1) = Inr z' \<and>
               Tensor_shape z' = ret \<and> requires_grad z' = requires_grad x1 \<and>
               expand_axes (storage x1) (axes_to_expand P1 ret) ret = Inr (storage z')"
    proof (rule expand_side[OF after(2,3)])
      show "length ret = length P1" by (simp add: lret lP)
      show "length P1 \<le> 4" using r4 lP by simp
      show "P1 ! i = ret ! i \<or> (P1 ! i = 1 \<and> 1 < ret ! i)" if "i < length P1" for i
        using that okx[of i] ret_nth[of i] lP by (auto simp: max_def)
    qed
    moreover have "Tensor_shape x1 = P1"
      using after(3) by (simp add: Tensor_shape_def Storage_shape_def)
    ultimately obtain x' where
      x': "(if P1 \<noteq> ret then Tensor_expand x1 ret else Inr x1) = Inr x'"
      by auto
    have bad: "P2 ! j \<noteq> ret ! j" "P2 ! j \<noteq> 1"
      using j okx[of j] ret_nth[of j] by (auto simp: max_def)
    have "Tensor_expand y1 ret = Inl AssertionError"
      using j(1) bad lP lret r4 after(5)
      by (intro Tensor_expand_refuses[OF after(4), of ret j]) simp_all
    moreover have "P2 \<noteq> ret" using bad(1) by auto
    ultimately show ?thesis using run x' by simp
  qed
qed

text \<open>
  C8 (as amended). Two tensors of equal shapes are returned as they are, whatever they
  hold. For tensors of rank at most 4 (the constructor refuses a higher rank) with
  contiguous storage (what the operations of the buffer return): when the shapes can be
  broadcast, \<open>_broadcasted\<close> returns two tensors that both have the result shape (the
  maximum per axis of the two shapes, the shorter one padded on the left with 1s); each
  keeps its \<open>requires_grad\<close> flag, and its storage is what expanding the padded tensor
  along exactly the axes where its size is 1 and the result is larger gives. When the
  shapes cannot be broadcast, no tensors are returned: the call fails with an assertion
  error.
\<close>

theorem broadcasted_shapes:
  "(Tensor_shape x = Tensor_shape y \<longrightarrow> broadcasted x y = Inr (x, y)) \<and>
   (contiguous (storage x) \<and> contiguous (storage y) \<and>
    length (Tensor_shape x) \<le> 4 \<and> length (Tensor_shape y) \<le> 4 \<longrightarrow>
    (let S1 = Tensor_shape x; S2 = Tensor_shape y;
         r = max (length S1) (length S2);
         shape_ret = broadcast_shape S1 S2
     in (broadcastable S1 S2 \<longrightarrow>
           (\<exists>x' y'. broadcasted x y = Inr (x', y') \<and>
              Tensor_shape x' = shape_ret \<and> Tensor_shape y' = shape_ret \<and>
              length shape_ret = r \<and>
              (\<forall>i < r. shape_ret ! i = max (left_pad r S1 ! i) (left_pad r S2 ! i)) \<and>
              requires_grad x' = requires_grad x \<and> requires_grad y' = requires_grad y \<and>
              expand_axes (reshape (storage x) (left_pad r S1))
                (axes_to_expand (left_pad r S1) shape_ret) shape_ret = Inr (storage x') \<and>
              expand_axes (reshape (storage y) (left_pad r S2))
                (axes_to_expand (left_pad r S2) shape_ret) shape_ret = Inr (storage y'))) \<and>
        (\<not> broadcastable S1 S2 \<longrightarrow> broadcasted x y = Inl AssertionError)))"
proof (unfold Let_def, intro conjI impI, goal_cases)
  case 1
  then show ?case by (rule broadcasted_equal_shapes)
next
  case 2
  then show ?case by (intro broadcasted_succeeds[OF _ _ _ _ _ refl refl]) simp_all
next
  case 3
  then show ?case by (intro broadcasted_refuses) simp_all
qed

definition row_tensor :: Tensor where
  "row_tensor = \<lparr>storage = vec [1, 2, 3], requires_grad = True\<rparr>"

definition column_tensor :: Tensor where
  "column_tensor = \<lparr>storage = MiniBuffer_init [10, 20] [2, 1] None, requires_grad = False\<rparr>"

definition pair_tensor :: Tensor where
  "pair_tensor = \<lparr>storage = vec [4, 5], requires_grad = False\<rparr>"

lemma example_broadcastable: "broadcastable [3] [2, 1]"
  by (simp add: broadcastable_def left_pad_def less_Suc_eq numeral_2_eq_2)

lemma example_not_broadcastable: "\<not> broadcastable [2] [3]"
  by (simp add: broadcastable_def left_pad_def)

theorem broadcasted_shapes_witness:
  "broadcasted row_tensor row_tensor = Inr (row_tensor, row_tensor) \<and>
   contiguous (storage row_tensor) \<and> contiguous (storage column_tensor) \<and>
   Tensor_shape row_tensor = [3] \<and> Tensor_shape column_tensor = [2, 1] \<and>
   broadcastable (Tensor_shape row_tensor) (Tensor_shape column_tensor) \<and>
   (\<exists>x' y'. broadcasted row_tensor column_tensor = Inr (x', y') \<and>
            Tensor_shape x' = [2, 3] \<and> Tensor_shape y' = [2, 3] \<and>
            requires_grad x' \<and> \<not> requires_grad y') \<and>
   contiguous (storage pair_tensor) \<and> Tensor_shape pair_tensor = [2] \<and>
   \<not> broadcastable (Tensor_shape pair_tensor) (Tensor_shape row_tensor) \<and>
   broadcasted pair_tensor row_tensor = Inl AssertionError"
proof -
  have c: "contiguous (storage row_tensor)" "contiguous (storage column_tensor)"
    "contiguous (storage pair_tensor)"
    by (simp_all add: row_tensor_def column_tensor_def pair_tensor_def vec_def
        MiniBuffer_init_def contiguous_def)
  have s: "Tensor_shape row_tensor = [3]" "Tensor_shape column_tensor = [2, 1]"
    "Tensor_shape pair_tensor = [2]"
    by (simp_all add: row_tensor_def column_tensor_def pair_tensor_def vec_def
        MiniBuffer_init_def Tensor_shape_def Storage_shape_def)
  have b: "broadcastable (Tensor_shape row_tensor) (Tensor_shape column_tensor)"
    "\<not> broadcastable (Tensor_shape pair_tensor) (Tensor_shape row_tensor)"
    by (simp_all only: s example_broadcastable example_not_broadcastable simp_thms)
  have ret: "broadcast_shape [3] [2, 1] = [2, 3]"
    by (simp add: broadcast_shape_def left_pad_def)
  have rg: "requires_grad row_tensor" "\<not> requires_grad column_tensor"
    by (simp_all add: row_tensor_def column_tensor_def)
  have "broadcasted row_tensor row_tensor = Inr (row_tensor, row_tensor)"
    using broadcasted_shapes[of row_tensor row_tensor] by simp
  moreover have "\<exists>x' y'. broadcasted row_tensor column_tensor = Inr (x', y') \<and>
            Tensor_shape x' = [2, 3] \<and> Tensor_shape y' = [2, 3] \<and>
            requires_grad x' \<and> \<not> requires_grad y'"
    using broadcasted_shapes[of row_tensor column_tensor] c b rg
    by (simp only: Let_def s ret) (simp, blast)
  moreover have "broadcasted pair_tensor row_tensor = Inl AssertionError"
    using broadcasted_shapes[of pair_tensor row_tensor] c b
    by (simp only: Let_def s) simp
  ultimately show ?thesis using c s b by simp
qed

text \<open>
  Shapes that cannot be broadcast: for the shapes \<open>(2,)\<close> and \<open>(3,)\<close> no pair of tensors
  is returned; \<open>Tensor.expand\<close> refuses to expand an axis whose size is not 1.
\<close>

theorem broadcasted_incompatible_counterexample:
  "broadcasted \<lparr>storage = vec [1, 2], requires_grad = False\<rparr>
               \<lparr>storage = vec [1, 2, 3], requires_grad = False\<rparr> = Inl AssertionError"
  by (simp add: broadcasted_def Tensor_expand_def Tensor_shape_def Storage_shape_def vec_def
      MiniBuffer_init_def upt_rec)


section \<open>The computation graph and the backward pass\<close>

text \<open>
  Tensors are objects with identity: the graph refers to them, and the backward pass
  writes their \<open>grad\<close> and \<open>_ctx\<close> slots. The heap is the list of all tensor objects, and a
  reference is an index into it; a reference outside the heap, which Python cannot have,
  is the error \<open>DanglingReference\<close>. A gradient is itself a Tensor that requires no
  gradient and has no producing operation, so the \<open>grad\<close> slot holds a plain tensor
  value.
\<close>

text \<open>
  Modelled from the spec: \<open>ops.py\<close> is missing, so the backward rule of an operation is a
  field of its record: from the storage of the output gradient it gives one optional
  gradient storage per input, in the order of the inputs, as lines 440 to 442 of
  \<open>tensor.py\<close> arrange them (\<open>None\<close> for an input that gets no gradient); it may raise.
  The other field is the tuple of the inputs, \<open>parents\<close>.
\<close>

record Function =
  parents :: "nat list"
  backward_rule :: "Storage \<Rightarrow> error + Storage option list"

text \<open>
  The slot \<open>_ctx\<close> is \<open>NoCtx\<close> when it holds \<open>None\<close> (a leaf), \<open>Ctx f\<close> when it holds the
  producing operation, and \<open>Deleted\<close> after \<open>del node._ctx\<close>: reading a deleted slot
  raises AttributeError, and \<open>getattr(node, "_ctx", None)\<close> gives \<open>None\<close> for it.
\<close>

datatype ctx_slot = Deleted | NoCtx | Ctx Function

record TensorObj = Tensor +
  grad :: "Tensor option"
  ctx :: ctx_slot

type_synonym heap = "TensorObj list"

definition heap_get :: "heap \<Rightarrow> nat \<Rightarrow> error + TensorObj" where
  "heap_get h r = (if r < length h then Inr (h ! r) else Inl DanglingReference)"

definition getattr_ctx :: "TensorObj \<Rightarrow> Function option" where
  "getattr_ctx node = (case ctx node of Ctx f \<Rightarrow> Some f | _ \<Rightarrow> None)"

text \<open>
  \<open>_toposort\<close>: the visited set and the list of nodes are shared by all calls, so both
  are passed on. The recursion is bounded by the fuel, and running out of it is
  RecursionError; \<open>toposort\<close> starts with more fuel than there are tensors, which is
  shown below to be always enough. Python's own limit on the depth of recursion is not
  modelled.
\<close>

fun toposort_node ::
  "nat \<Rightarrow> heap \<Rightarrow> nat \<Rightarrow> nat list \<times> nat list \<Rightarrow> error + (nat list \<times> nat list)"
and toposort_parents ::
  "nat \<Rightarrow> heap \<Rightarrow> nat list \<Rightarrow> nat list \<times> nat list \<Rightarrow> error + (nat list \<times> nat list)"
where
  "toposort_node 0 h node (visited, nodes) = Inl RecursionError"
| "toposort_node (Suc fuel) h node (visited, nodes) =
     ebind (heap_get h node) (\<lambda>t.
     case getattr_ctx t of
       None \<Rightarrow> Inr (node # visited, nodes)
     | Some f \<Rightarrow>
         ebind (toposort_parents fuel h (parents f) (node # visited, nodes))
           (\<lambda>(visited, nodes). Inr (visited, nodes @ [node])))"
| "toposort_parents fuel h [] (visited, nodes) = Inr (visited, nodes)"
| "toposort_parents fuel h (parent # rest) (visited, nodes) =
     (if parent \<notin> set visited
      then ebind (toposort_node fuel h parent (visited, nodes)) (toposort_parents fuel h rest)
      else toposort_parents fuel h rest (visited, nodes))"

definition toposort :: "heap \<Rightarrow> nat \<Rightarrow> error + nat list" where
  "toposort h self =
     ebind (toposort_node (Suc (length h)) h self ([], [])) (\<lambda>(visited, nodes). Inr nodes)"

text \<open>
  The inner loop of \<open>backward\<close> over \<open>zip(node._ctx.parents, grads)\<close>: a gradient that
  is defined, for a parent that requires one, must have the parent's shape and is then
  stored in the parent's empty \<open>grad\<close> slot or added to the gradient it holds.
\<close>

fun accumulate :: "heap \<Rightarrow> (nat \<times> Tensor option) list \<Rightarrow> error + heap" where
  "accumulate h [] = Inr h"
| "accumulate h ((parent, None) # rest) = accumulate h rest"
| "accumulate h ((parent, Some g) # rest) =
     ebind (heap_get h parent) (\<lambda>p.
     if requires_grad p then
       (if Tensor_shape g \<noteq> Tensor_shape p then Inl AssertionError
        else ebind (case grad p of None \<Rightarrow> Inr g | Some pg \<Rightarrow> Tensor_add pg g) (\<lambda>new_grad.
             accumulate (h[parent := p\<lparr>grad := Some new_grad\<rparr>]) rest))
     else accumulate h rest)"

text \<open>The list comprehension that wraps every defined gradient in a Tensor.\<close>

fun wrap_grads :: "Storage option list \<Rightarrow> error + Tensor option list" where
  "wrap_grads [] = Inr []"
| "wrap_grads (None # gs) = ebind (wrap_grads gs) (\<lambda>ts. Inr (None # ts))"
| "wrap_grads (Some g # gs) =
     ebind (Tensor_init g False) (\<lambda>t.
     ebind (wrap_grads gs) (\<lambda>ts. Inr (Some t # ts)))"

text \<open>One turn of the loop of \<open>backward\<close>, for one node of the order.\<close>

definition backward_node :: "heap \<Rightarrow> nat \<Rightarrow> error + heap" where
  "backward_node h node =
     ebind (heap_get h node) (\<lambda>t.
     case grad t of
       None \<Rightarrow> Inl AssertionError
     | Some node_grad \<Rightarrow>
         (case ctx t of
            Ctx f \<Rightarrow>
              ebind (backward_rule f (storage node_grad)) (\<lambda>grads.
              ebind (wrap_grads grads) (\<lambda>grads.
              ebind (accumulate h (zip (parents f) grads)) (\<lambda>h'.
              ebind (heap_get h' node) (\<lambda>t'.
              Inr (h'[node := t'\<lparr>ctx := Deleted\<rparr>])))))
          | _ \<Rightarrow> Inl AttributeError))"

fun backward_loop :: "heap \<Rightarrow> nat list \<Rightarrow> error + heap" where
  "backward_loop h [] = Inr h"
| "backward_loop h (node # rest) = ebind (backward_node h node) (\<lambda>h'. backward_loop h' rest)"

definition seed_grad :: "heap \<Rightarrow> nat \<Rightarrow> error + heap" where
  "seed_grad h self =
     ebind (heap_get h self) (\<lambda>t.
     ebind (Tensor_init (Storage_from_scalar 1) False) (\<lambda>one.
     Inr (h[self := t\<lparr>grad := Some one\<rparr>])))"

definition backward :: "heap \<Rightarrow> nat \<Rightarrow> error + heap" where
  "backward h self =
     ebind (heap_get h self) (\<lambda>t.
     if \<not> Tensor_is_scalar t then Inl AssertionError
     else
       ebind (seed_grad h self) (\<lambda>h1.
       ebind (toposort h1 self) (\<lambda>autograd_graph.
       backward_loop h1 (rev autograd_graph))))"

text \<open>
  Building blocks of example graphs: a leaf tensor, and a tensor produced by an
  operation (it requires a gradient, or the operation would not be attached).
\<close>

definition leaf :: "Storage \<Rightarrow> bool \<Rightarrow> TensorObj" where
  "leaf s rg = \<lparr>storage = s, requires_grad = rg, grad = None, ctx = NoCtx\<rparr>"

definition produced :: "Storage \<Rightarrow> nat list \<Rightarrow> (Storage \<Rightarrow> error + Storage option list) \<Rightarrow> TensorObj" where
  "produced s ps rule =
     \<lparr>storage = s, requires_grad = True, grad = None,
      ctx = Ctx \<lparr>parents = ps, backward_rule = rule\<rparr>\<rparr>"

section \<open>The traversal never runs out of fuel\<close>

text \<open>
  Every call of \<open>_toposort\<close> below the first is for a tensor that was not visited, and
  marks it; so the depth of the recursion is at most the number of tensors, and the fuel
  that \<open>toposort\<close> starts with is never used up.
\<close>

definition unvisited :: "heap \<Rightarrow> nat list \<Rightarrow> nat" where
  "unvisited h visited = card ({..<length h} - set visited)"

lemma unvisited_mono: "set v \<subseteq> set v' \<Longrightarrow> unvisited h v' \<le> unvisited h v"
  unfolding unvisited_def by (intro card_mono) auto

lemma unvisited_visit:
  assumes "node < length h" "node \<notin> set v"
  shows "unvisited h (node # v) < unvisited h v"
  unfolding unvisited_def
  by (rule psubset_card_mono) (use assms in auto)

definition fuel_enough :: "nat \<Rightarrow> heap \<Rightarrow> bool" where
  "fuel_enough fuel h \<longleftrightarrow>
     (\<forall>node v n. unvisited h v < fuel \<and> node \<notin> set v \<longrightarrow>
        (case toposort_node fuel h node (v, n) of
           Inl e \<Rightarrow> e \<noteq> RecursionError
         | Inr (v', n') \<Rightarrow> set v \<subseteq> set v'))"

lemma toposort_parents_fuel:
  assumes "fuel_enough fuel h" "unvisited h v < fuel"
  shows "case toposort_parents fuel h ps (v, n) of
           Inl e \<Rightarrow> e \<noteq> RecursionError
         | Inr (v', n') \<Rightarrow> set v \<subseteq> set v'"
  using assms(2)
proof (induction ps arbitrary: v n)
  case Nil
  then show ?case by simp
next
  case (Cons p ps)
  show ?case
  proof (cases "p \<in> set v")
    case True
    then show ?thesis using Cons by simp
  next
    case False
    from assms(1) Cons.prems False
    have node: "case toposort_node fuel h p (v, n) of
           Inl e \<Rightarrow> e \<noteq> RecursionError
         | Inr (v', n') \<Rightarrow> set v \<subseteq> set v'"
      unfolding fuel_enough_def by blast
    show ?thesis
    proof (cases "toposort_node fuel h p (v, n)")
      case (Inl e)
      then show ?thesis using node False by simp
    next
      case (Inr vn)
      obtain v' n' where vn: "vn = (v', n')" by (cases vn)
      with node Inr have sub: "set v \<subseteq> set v'" by simp
      then have "unvisited h v' < fuel"
        using unvisited_mono[OF sub, of h] Cons.prems by simp
      from Cons.IH[OF this, of n'] sub show ?thesis
        using Inr vn False by (auto split: sum.splits)
    qed
  qed
qed

lemma fuel_enough_all: "fuel_enough fuel h"
proof (induction fuel)
  case 0
  then show ?case by (simp add: fuel_enough_def)
next
  case (Suc fuel)
  show ?case
    unfolding fuel_enough_def
  proof (intro allI impI)
    fix node v n
    assume a: "unvisited h v < Suc fuel \<and> node \<notin> set v"
    show "case toposort_node (Suc fuel) h node (v, n) of
           Inl e \<Rightarrow> e \<noteq> RecursionError
         | Inr (v', n') \<Rightarrow> set v \<subseteq> set v'"
    proof (cases "node < length h")
      case False
      then show ?thesis by (simp add: heap_get_def)
    next
      case True
      show ?thesis
      proof (cases "getattr_ctx (h ! node)")
        case None
        then show ?thesis using True by (auto simp: heap_get_def)
      next
        case (Some f)
        have "unvisited h (node # v) < fuel"
          using unvisited_visit[OF True, of v] a by simp
        from toposort_parents_fuel[OF Suc this, of "parents f" n]
        show ?thesis using True Some
          by (auto simp: heap_get_def split: sum.splits)
      qed
    qed
  qed
qed

lemma toposort_no_recursion_error: "toposort h r \<noteq> Inl RecursionError"
proof -
  have "unvisited h [] < Suc (length h)"
    by (simp add: unvisited_def)
  with fuel_enough_all[of "Suc (length h)" h]
  have "case toposort_node (Suc (length h)) h r ([], []) of
           Inl e \<Rightarrow> e \<noteq> RecursionError
         | Inr (v', n') \<Rightarrow> set [] \<subseteq> set v'"
    unfolding fuel_enough_def by (metis empty_iff empty_set)
  then show ?thesis
    by (auto simp: toposort_def split: sum.splits)
qed

section \<open>What the backward pass keeps and what it releases\<close>

lemma heap_get_Inr: "heap_get h r = Inr t \<longleftrightarrow> r < length h \<and> t = h ! r"
  by (auto simp: heap_get_def)

lemma ebind_eq_Inr: "ebind m f = Inr v \<longleftrightarrow> (\<exists>u. m = Inr u \<and> f u = Inr v)"
  by (cases m) simp_all

text \<open>The part of a tensor object that the backward pass never writes.\<close>

definition same_tensors :: "heap \<Rightarrow> heap \<Rightarrow> bool" where
  "same_tensors h h' \<longleftrightarrow>
     length h' = length h \<and>
     (\<forall>i < length h. storage (h' ! i) = storage (h ! i) \<and>
                      requires_grad (h' ! i) = requires_grad (h ! i))"

lemma same_tensors_refl [simp]: "same_tensors h h"
  by (simp add: same_tensors_def)

lemma same_tensors_trans: "same_tensors h h' \<Longrightarrow> same_tensors h' h'' \<Longrightarrow> same_tensors h h''"
  by (simp add: same_tensors_def)

lemma same_tensors_nth:
  "same_tensors h h' \<Longrightarrow> i < length h \<Longrightarrow>
     storage (h' ! i) = storage (h ! i) \<and> requires_grad (h' ! i) = requires_grad (h ! i)"
  by (simp add: same_tensors_def)

lemma same_tensors_update:
  assumes "i < length h" "storage t = storage (h ! i)" "requires_grad t = requires_grad (h ! i)"
  shows "same_tensors h (h[i := t])"
  using assms by (simp add: same_tensors_def nth_list_update)

lemma accumulate_keeps:
  assumes "accumulate h pgs = Inr h'"
  shows "same_tensors h h' \<and> map ctx h' = map ctx h"
  using assms
proof (induction h pgs rule: accumulate.induct)
  case (1 h)
  then show ?case by simp
next
  case (2 h parent rest)
  then show ?case by simp
next
  case (3 h parent g rest)
  from "3.prems" obtain p where p: "parent < length h" "p = h ! parent"
    by (auto simp: ebind_eq_Inr heap_get_Inr)
  show ?case
  proof (cases "requires_grad p")
    case False
    then show ?thesis using 3 p by (simp add: heap_get_def)
  next
    case True
    with "3.prems" p obtain new_grad where
      ng: "Tensor_shape g = Tensor_shape p"
          "(case grad p of None \<Rightarrow> Inr g | Some pg \<Rightarrow> Tensor_add pg g) = Inr new_grad"
          "accumulate (h[parent := p\<lparr>grad := Some new_grad\<rparr>]) rest = Inr h'"
      by (auto simp: ebind_eq_Inr heap_get_def split: if_splits)
    have "same_tensors (h[parent := p\<lparr>grad := Some new_grad\<rparr>]) h' \<and>
          map ctx h' = map ctx (h[parent := p\<lparr>grad := Some new_grad\<rparr>])"
      using "3.IH"(1)[of p new_grad] True ng p
      by (auto simp: heap_get_def)
    moreover have "same_tensors h (h[parent := p\<lparr>grad := Some new_grad\<rparr>])"
      using p by (intro same_tensors_update) simp_all
    moreover have "map ctx (h[parent := p\<lparr>grad := Some new_grad\<rparr>]) = map ctx h"
      using p by (simp add: map_update list_update_same_conv)
    ultimately show ?thesis
      using same_tensors_trans by auto
  qed
qed

lemma backward_node_unfold:
  assumes "backward_node h node = Inr h'"
  shows "\<exists>node_grad f grads ts h1.
           node < length h \<and> grad (h ! node) = Some node_grad \<and> ctx (h ! node) = Ctx f \<and>
           backward_rule f (storage node_grad) = Inr grads \<and> wrap_grads grads = Inr ts \<and>
           accumulate h (zip (parents f) ts) = Inr h1 \<and> node < length h1 \<and>
           h' = h1[node := (h1 ! node)\<lparr>ctx := Deleted\<rparr>]"
proof -
  from assms have n: "node < length h"
    by (auto simp: backward_node_def heap_get_def split: if_splits)
  with assms obtain node_grad where g: "grad (h ! node) = Some node_grad"
    by (cases "grad (h ! node)") (auto simp: backward_node_def heap_get_def)
  with assms n obtain f where f: "ctx (h ! node) = Ctx f"
    by (cases "ctx (h ! node)") (auto simp: backward_node_def heap_get_def)
  from assms n g f obtain grads where r: "backward_rule f (storage node_grad) = Inr grads"
    by (cases "backward_rule f (storage node_grad)") (auto simp: backward_node_def heap_get_def)
  from assms n g f r obtain ts where w: "wrap_grads grads = Inr ts"
    by (cases "wrap_grads grads") (auto simp: backward_node_def heap_get_def)
  from assms n g f r w obtain h1 where a: "accumulate h (zip (parents f) ts) = Inr h1"
    by (cases "accumulate h (zip (parents f) ts)") (auto simp: backward_node_def heap_get_def)
  from assms n g f r w a have "node < length h1 \<and> h' = h1[node := (h1 ! node)\<lparr>ctx := Deleted\<rparr>]"
    by (auto simp: backward_node_def heap_get_def split: if_splits)
  with n g f r w a show ?thesis by blast
qed

lemma backward_node_keeps:
  assumes "backward_node h node = Inr h'"
  shows "same_tensors h h' \<and> node < length h \<and> ctx (h' ! node) = Deleted \<and>
         (\<forall>i < length h. i \<noteq> node \<longrightarrow> ctx (h' ! i) = ctx (h ! i))"
proof -
  from backward_node_unfold[OF assms] obtain node_grad f grads ts h1 where
    u: "node < length h \<and> grad (h ! node) = Some node_grad \<and> ctx (h ! node) = Ctx f \<and>
           backward_rule f (storage node_grad) = Inr grads \<and> wrap_grads grads = Inr ts \<and>
           accumulate h (zip (parents f) ts) = Inr h1 \<and> node < length h1 \<and>
           h' = h1[node := (h1 ! node)\<lparr>ctx := Deleted\<rparr>]"
    by (elim exE)
  then have n: "node < length h" and
    a: "accumulate h (zip (parents f) ts) = Inr h1" and
    h': "h' = h1[node := (h1 ! node)\<lparr>ctx := Deleted\<rparr>]" and n1: "node < length h1"
    by simp_all
  from accumulate_keeps[OF a] have k: "same_tensors h h1" "map ctx h1 = map ctx h"
    by simp_all
  have len: "length h1 = length h" using k(1) by (simp add: same_tensors_def)
  have "same_tensors h1 h'"
    unfolding h' using n1 by (intro same_tensors_update) simp_all
  then have "same_tensors h h'" using k(1) same_tensors_trans by blast
  moreover have "ctx (h' ! node) = Deleted"
    using n1 by (simp add: h')
  moreover have "ctx (h' ! i) = ctx (h ! i)" if "i \<noteq> node" "i < length h" for i
  proof -
    have "map ctx h1 ! i = map ctx h ! i" by (simp only: k(2))
    then have "ctx (h1 ! i) = ctx (h ! i)"
      using that(2) len by simp
    then show ?thesis using that by (simp add: h')
  qed
  ultimately show ?thesis using n by blast
qed

lemma backward_loop_keeps:
  assumes "backward_loop h ns = Inr h'"
  shows "same_tensors h h' \<and> (\<forall>n \<in> set ns. n < length h \<and> ctx (h' ! n) = Deleted) \<and>
         (\<forall>i < length h. i \<notin> set ns \<longrightarrow> ctx (h' ! i) = ctx (h ! i))"
  using assms
proof (induction ns arbitrary: h)
  case Nil
  then show ?case by simp
next
  case (Cons n ns)
  from Cons.prems obtain h1 where
    s: "backward_node h n = Inr h1" and r: "backward_loop h1 ns = Inr h'"
    by (auto simp: ebind_eq_Inr)
  note k = backward_node_keeps[OF s] and ih = Cons.IH[OF r]
  have len: "length h1 = length h" using k by (simp add: same_tensors_def)
  have "same_tensors h h'" using k ih same_tensors_trans by blast
  moreover have "n < length h \<and> ctx (h' ! n) = Deleted"
  proof (cases "n \<in> set ns")
    case True
    then show ?thesis using ih k by simp
  next
    case False
    then show ?thesis using ih k len by simp
  qed
  moreover have "\<forall>m \<in> set ns. m < length h \<and> ctx (h' ! m) = Deleted"
    using ih len by simp
  moreover have "\<forall>i < length h. i \<notin> set (n # ns) \<longrightarrow> ctx (h' ! i) = ctx (h ! i)"
    using ih k len by simp
  ultimately show ?case by simp
qed

text \<open>The gradient that \<open>backward\<close> seeds: the tensor of the literal 1.0.\<close>

definition seed :: Tensor where
  "seed = \<lparr>storage = Storage_from_scalar 1, requires_grad = False\<rparr>"

lemma seed_grad_eq:
  "seed_grad h r = (if r < length h then Inr (h[r := (h ! r)\<lparr>grad := Some seed\<rparr>])
                    else Inl DanglingReference)"
  by (simp add: seed_grad_def heap_get_def Tensor_init_def Storage_rank_def
      Storage_from_scalar_def MiniBuffer_init_def seed_def)

lemma toposort_released:
  assumes "r < length h" "getattr_ctx (h ! r) = None"
  shows "toposort h r = Inr []"
  using assms by (simp add: toposort_def heap_get_def)

lemma toposort_root_last:
  assumes "toposort h r = Inr ns" "ctx (h ! r) = Ctx f"
  shows "r \<in> set ns"
proof -
  from assms(1) have r: "r < length h"
    by (auto simp: toposort_def heap_get_def ebind_eq_Inr split: if_splits)
  with assms obtain vn where
    "toposort_parents (length h) h (parents f) ([r], []) = Inr vn" "ns = snd vn @ [r]"
    by (auto simp: toposort_def heap_get_def ebind_eq_Inr getattr_ctx_def)
  then show ?thesis by simp
qed

lemma backward_unfold:
  assumes "backward h r = Inr h'"
  shows "r < length h \<and> Tensor_is_scalar (h ! r) \<and>
         (\<exists>ns. toposort (h[r := (h ! r)\<lparr>grad := Some seed\<rparr>]) r = Inr ns \<and>
               backward_loop (h[r := (h ! r)\<lparr>grad := Some seed\<rparr>]) (rev ns) = Inr h')"
proof -
  from assms have r: "r < length h"
    by (auto simp: backward_def heap_get_def split: if_splits)
  with assms have s: "Tensor_is_scalar (h ! r)"
    by (auto simp: backward_def heap_get_def split: if_splits)
  with assms r show ?thesis
    by (auto simp: backward_def heap_get_def seed_grad_eq ebind_eq_Inr)
qed

text \<open>
  C3 (as amended). Every turn of the loop of \<open>backward\<close> ends by deleting the
  producing-operation reference of the node it has processed, so after a call that
  returns, every node of the traversal order has its reference deleted. A second call on
  the same root does not fail: \<open>toposort\<close> reads a deleted reference as absent, its order
  is empty, and the call does what seeding does and nothing else; it writes the seed into
  the root's \<open>grad\<close> and leaves every other slot of every tensor as the first call left
  it.
\<close>

theorem backward_releases_and_second_call_only_seeds:
  assumes "backward h r = Inr h'"
  shows "(\<forall>h0 node h1. backward_node h0 node = Inr h1 \<longrightarrow> ctx (h1 ! node) = Deleted) \<and>
         (\<exists>ns. toposort (h[r := (h ! r)\<lparr>grad := Some seed\<rparr>]) r = Inr ns \<and>
               (\<forall>n \<in> set ns. ctx (h' ! n) = Deleted)) \<and>
         toposort h' r = Inr [] \<and>
         backward h' r = Inr (h'[r := (h' ! r)\<lparr>grad := Some seed\<rparr>])"
proof -
  let ?h1 = "h[r := (h ! r)\<lparr>grad := Some seed\<rparr>]"
  from backward_unfold[OF assms] obtain ns where
    r: "r < length h" and sc: "Tensor_is_scalar (h ! r)" and
    t: "toposort ?h1 r = Inr ns" and l: "backward_loop ?h1 (rev ns) = Inr h'"
    by blast
  note k = backward_loop_keeps[OF l]
  have len: "length h' = length h" using k by (simp add: same_tensors_def)
  have st: "storage (h' ! r) = storage (h ! r)"
    using k r by (simp add: same_tensors_def)
  have step: "\<forall>h0 node h1. backward_node h0 node = Inr h1 \<longrightarrow> ctx (h1 ! node) = Deleted"
    using backward_node_keeps by blast
  have rel: "\<forall>n \<in> set ns. ctx (h' ! n) = Deleted"
    using k by simp
  have gone: "getattr_ctx (h' ! r) = None"
  proof (cases "ctx (h ! r)")
    case (Ctx f)
    then have "ctx (?h1 ! r) = Ctx f" using r by simp
    from toposort_root_last[OF t this] rel show ?thesis
      by (simp add: getattr_ctx_def)
  next
    case Deleted
    then have "getattr_ctx (?h1 ! r) = None" using r by (simp add: getattr_ctx_def)
    from toposort_released[OF _ this] t r have "ns = []" by simp
    then have "ctx (h' ! r) = ctx (?h1 ! r)" using k r by simp
    then show ?thesis using Deleted r by (simp add: getattr_ctx_def)
  next
    case NoCtx
    then have "getattr_ctx (?h1 ! r) = None" using r by (simp add: getattr_ctx_def)
    from toposort_released[OF _ this] t r have "ns = []" by simp
    then have "ctx (h' ! r) = ctx (?h1 ! r)" using k r by simp
    then show ?thesis using NoCtx r by (simp add: getattr_ctx_def)
  qed
  have t2: "toposort h' r = Inr []"
    using toposort_released[OF _ gone] r len by simp
  let ?h2 = "h'[r := (h' ! r)\<lparr>grad := Some seed\<rparr>]"
  have "getattr_ctx (?h2 ! r) = None"
    using gone r len by (simp add: getattr_ctx_def)
  then have "toposort ?h2 r = Inr []"
    using toposort_released[of r ?h2] r len by simp
  moreover have "Tensor_is_scalar (h' ! r)"
    using sc st by (simp add: Tensor_is_scalar_def)
  ultimately have "backward h' r = Inr ?h2"
    using r len by (simp add: backward_def heap_get_def seed_grad_eq)
  with step t rel t2 show ?thesis by blast
qed

text \<open>
  An example graph: a leaf \<open>a = [3]\<close> that requires a gradient and the tensor \<open>[6]\<close>
  produced from it by an operation whose backward rule doubles the output gradient.
\<close>

definition scale_rule :: "real \<Rightarrow> Storage \<Rightarrow> error + Storage option list" where
  "scale_rule c g = Inr [Some (MiniBuffer_init (map ((*) c) (data g)) (shape g) None)]"

definition chain_heap :: heap where
  "chain_heap = [leaf (vec [3]) True, produced (vec [6]) [0] (scale_rule 2)]"

definition chain_heap_done :: heap where
  "chain_heap_done =
     [\<lparr>storage = vec [3], requires_grad = True,
       grad = Some \<lparr>storage = vec [2], requires_grad = False\<rparr>, ctx = NoCtx\<rparr>,
      \<lparr>storage = vec [6], requires_grad = True, grad = Some seed, ctx = Deleted\<rparr>]"

lemmas example_defs =
  leaf_def produced_def vec_def scale_rule_def seed_def MiniBuffer_init_def
  Storage_from_scalar_def Storage_rank_def Storage_shape_def Storage_is_scalar_def
  Tensor_is_scalar_def Tensor_shape_def Tensor_init_def is_scalar_def
  get_strides_from_shape_def heap_get_def getattr_ctx_def

lemma chain_heap_first_call: "backward chain_heap 1 = Inr chain_heap_done"
  by (simp add: backward_def seed_grad_def toposort_def backward_node_def
      chain_heap_def chain_heap_done_def example_defs)

lemma chain_heap_second_call: "backward chain_heap_done 1 = Inr chain_heap_done"
  by (simp add: backward_def seed_grad_def toposort_def
      chain_heap_done_def example_defs)

theorem backward_releases_and_second_call_only_seeds_witness:
  "backward chain_heap 1 = Inr chain_heap_done \<and>
   ctx (chain_heap_done ! 1) = Deleted \<and>
   toposort chain_heap_done 1 = Inr [] \<and>
   backward chain_heap_done 1 = Inr (chain_heap_done[1 := (chain_heap_done ! 1)\<lparr>grad := Some seed\<rparr>])"
proof -
  have "ctx (chain_heap_done ! 1) = Deleted"
    by (simp add: chain_heap_done_def)
  with backward_releases_and_second_call_only_seeds[OF chain_heap_first_call]
    chain_heap_first_call
  show ?thesis by blast
qed

text \<open>
  The claim as it stands asks the second call to fail. On the example graph the second
  call returns, and returns the heap it was given.
\<close>

theorem second_backward_succeeds_counterexample:
  "backward chain_heap 1 = Inr chain_heap_done \<and>
   backward chain_heap_done 1 = Inr chain_heap_done"
  using chain_heap_first_call chain_heap_second_call by simp

section \<open>The entry check of the backward pass\<close>

definition three_vector :: TensorObj where
  "three_vector = leaf (vec [1, 2, 3]) True"

text \<open>
  C1 (the code departs from the claim). \<open>backward\<close> asserts \<open>is_scalar\<close>, which tests
  that the rank is 1, not that there is one element. A leaf of shape \<open>(3,)\<close> has three
  elements, and \<open>backward\<close> on it returns: no assertion fails and the seed is stored as
  its gradient.
\<close>

theorem backward_accepts_three_elements:
  "length (data (storage three_vector)) = 3 \<and>
   is_scalar (storage three_vector) \<and>
   backward [three_vector] 0 = Inr [three_vector\<lparr>grad := Some seed\<rparr>]"
  by (simp add: backward_def seed_grad_def toposort_def three_vector_def example_defs)

text \<open>
  C4 (the code departs from the claim). After that call the gradient of the leaf has
  shape \<open>(1,)\<close> and the leaf has shape \<open>(3,)\<close>.
\<close>

theorem seeded_grad_shape_differs:
  "backward [three_vector] 0 = Inr [three_vector\<lparr>grad := Some seed\<rparr>] \<and>
   map_option Tensor_shape (grad (three_vector\<lparr>grad := Some seed\<rparr>)) = Some [1] \<and>
   Tensor_shape three_vector = [3]"
  by (simp add: backward_def seed_grad_def toposort_def three_vector_def example_defs)

section \<open>Gradient shapes during accumulation\<close>

text \<open>
  What the accumulation step does keep: when every gradient in the heap has the shape
  of its owner and the root has the shape \<open>(1,)\<close> of the seed, this is still so after
  \<open>backward\<close>; and a defined gradient of another shape, for a parent that requires a
  gradient, ends the pass with an assertion error.
\<close>

definition grads_shaped :: "heap \<Rightarrow> bool" where
  "grads_shaped h \<longleftrightarrow>
     (\<forall>i < length h. \<forall>g. grad (h ! i) = Some g \<longrightarrow> Tensor_shape g = Tensor_shape (h ! i))"

lemma accumulate_shape_mismatch:
  assumes "heap_get h p = Inr t" "requires_grad t" "Tensor_shape g \<noteq> Tensor_shape t"
  shows "accumulate h ((p, Some g) # rest) = Inl AssertionError"
  using assms by simp

lemma Tensor_add_shape:
  assumes "Tensor_shape a = Tensor_shape b" "Tensor_add a b = Inr t"
  shows "Tensor_shape t = Tensor_shape a"
proof -
  from assms obtain s where s: "add (storage a) (storage b) = Inr s" "storage t = s"
    by (auto simp: Tensor_add_def broadcasted_def Function_apply_def Tensor_init_def
        ebind_eq_Inr split: if_splits)
  from s(1) obtain u where "s = MiniBuffer_init u (shape (storage a)) None"
    by (auto simp: add_def ebind_eq_Inr)
  then have "shape s = shape (storage a)"
    by (simp add: MiniBuffer_init_def)
  then show ?thesis using s by (simp add: Tensor_shape_def Storage_shape_def)
qed

lemma grads_shaped_update:
  assumes "grads_shaped h" "i < length h" "Tensor_shape g = Tensor_shape (h ! i)"
  shows "grads_shaped (h[i := (h ! i)\<lparr>grad := Some g\<rparr>])"
  using assms
  by (auto simp: grads_shaped_def nth_list_update Tensor_shape_def)

lemma accumulate_grads_shaped:
  assumes "accumulate h pgs = Inr h'" "grads_shaped h"
  shows "grads_shaped h'"
  using assms
proof (induction h pgs rule: accumulate.induct)
  case (1 h)
  then show ?case by simp
next
  case (2 h parent rest)
  then show ?case by simp
next
  case (3 h parent g rest)
  from "3.prems" have p: "parent < length h"
    by (auto simp: ebind_eq_Inr heap_get_Inr)
  let ?p = "h ! parent"
  show ?case
  proof (cases "requires_grad ?p")
    case False
    then show ?thesis using 3 p by (simp add: heap_get_def)
  next
    case True
    with "3.prems" p obtain new_grad where
      ng: "Tensor_shape g = Tensor_shape ?p"
          "(case grad ?p of None \<Rightarrow> Inr g | Some pg \<Rightarrow> Tensor_add pg g) = Inr new_grad"
          "accumulate (h[parent := ?p\<lparr>grad := Some new_grad\<rparr>]) rest = Inr h'"
      by (auto simp: ebind_eq_Inr heap_get_def split: if_splits)
    have "Tensor_shape new_grad = Tensor_shape ?p"
    proof (cases "grad ?p")
      case None
      then show ?thesis using ng by simp
    next
      case (Some pg)
      then have "Tensor_shape pg = Tensor_shape ?p"
        using "3.prems"(2) p by (simp add: grads_shaped_def)
      then show ?thesis using Tensor_add_shape[of pg g new_grad] ng Some by simp
    qed
    then have "grads_shaped (h[parent := ?p\<lparr>grad := Some new_grad\<rparr>])"
      using "3.prems"(2) p by (intro grads_shaped_update)
    then show ?thesis
      using "3.IH"(1)[of ?p new_grad] True ng p by (simp add: heap_get_def)
  qed
qed

lemma backward_node_grads_shaped:
  assumes "backward_node h node = Inr h'" "grads_shaped h"
  shows "grads_shaped h'"
proof -
  from backward_node_unfold[OF assms(1)] obtain node_grad f grads ts h1 where
    "node < length h \<and> grad (h ! node) = Some node_grad \<and> ctx (h ! node) = Ctx f \<and>
     backward_rule f (storage node_grad) = Inr grads \<and> wrap_grads grads = Inr ts \<and>
     accumulate h (zip (parents f) ts) = Inr h1 \<and> node < length h1 \<and>
     h' = h1[node := (h1 ! node)\<lparr>ctx := Deleted\<rparr>]"
    by (elim exE)
  then have a: "accumulate h (zip (parents f) ts) = Inr h1" and
    h': "h' = h1[node := (h1 ! node)\<lparr>ctx := Deleted\<rparr>]"
    by simp_all
  from accumulate_grads_shaped[OF a assms(2)] have "grads_shaped h1" .
  have "Tensor_shape g = Tensor_shape (h' ! i)" if "i < length h'" "grad (h' ! i) = Some g" for i g
  proof (cases "i = node")
    case True
    with that have "grad (h1 ! i) = Some g" "storage (h' ! i) = storage (h1 ! i)" "i < length h1"
      by (simp_all add: h')
    then show ?thesis using \<open>grads_shaped h1\<close>
      by (simp add: grads_shaped_def Tensor_shape_def)
  next
    case False
    with that have "h' ! i = h1 ! i" "i < length h1" by (simp_all add: h')
    then show ?thesis using \<open>grads_shaped h1\<close> that(2)
      by (simp add: grads_shaped_def)
  qed
  then show ?thesis by (simp add: grads_shaped_def)
qed

lemma backward_loop_grads_shaped:
  assumes "backward_loop h ns = Inr h'" "grads_shaped h"
  shows "grads_shaped h'"
  using assms
proof (induction ns arbitrary: h)
  case Nil
  then show ?case by simp
next
  case (Cons n ns)
  then show ?case
    by (auto simp: ebind_eq_Inr dest: backward_node_grads_shaped)
qed

lemma backward_grads_shaped:
  assumes "backward h r = Inr h'" "grads_shaped h" "Tensor_shape (h ! r) = [1]"
  shows "grads_shaped h'"
proof -
  from backward_unfold[OF assms(1)] obtain ns where
    r: "r < length h" and
    l: "backward_loop (h[r := (h ! r)\<lparr>grad := Some seed\<rparr>]) (rev ns) = Inr h'"
    by blast
  have "Tensor_shape seed = [1]"
    by (simp add: seed_def Tensor_shape_def Storage_shape_def Storage_from_scalar_def
        MiniBuffer_init_def)
  then have "grads_shaped (h[r := (h ! r)\<lparr>grad := Some seed\<rparr>])"
    using assms(2,3) r by (intro grads_shaped_update) simp_all
  from backward_loop_grads_shaped[OF l this] show ?thesis .
qed

section \<open>Accumulating gradients\<close>









end
